theory Spec2Isabelle
  imports Main
begin

section \<open>Python strings\<close>

text \<open>
  The converter \<^verbatim>\<open>sidconv.py\<close> works on Python strings. A string is modelled as a
  \<^typ>\<open>string\<close>, a character as a \<^typ>\<open>char\<close> read as a code point below 256, which
  covers every BASIC listing in ASCII or Latin-1. On these code points
  \<^item> \<^verbatim>\<open>str.isspace\<close> and the regular-expression class \<^verbatim>\<open>\s\<close> hold for exactly the
    twelve characters of \<open>is_space\<close>;
  \<^item> the class \<^verbatim>\<open>\d\<close> holds for the ten ASCII digits;
  \<^item> under \<^verbatim>\<open>re.IGNORECASE\<close> a letter of a pattern matches its two ASCII cases and
    nothing else, and \<^verbatim>\<open>[A-Z]\<close> matches the 52 ASCII letters.
\<close>

definition is_space :: "char \<Rightarrow> bool" where
  "is_space c = (c \<in> set [CHR 0x09, CHR 0x0A, CHR 0x0B, CHR 0x0C, CHR 0x0D,
     CHR 0x1C, CHR 0x1D, CHR 0x1E, CHR 0x1F, CHR 0x20, CHR 0x85, CHR 0xA0])"

definition is_digit :: "char \<Rightarrow> bool" where
  "is_digit c = (c \<in> set ''0123456789'')"

definition is_alpha :: "char \<Rightarrow> bool" where
  "is_alpha c = (c \<in> set ''ABCDEFGHIJKLMNOPQRSTUVWXYZabcdefghijklmnopqrstuvwxyz'')"

definition is_alnum :: "char \<Rightarrow> bool" where
  "is_alnum c = (is_alpha c \<or> is_digit c)"

text \<open>
  \<^verbatim>\<open>str.upper\<close>, on the ASCII letters. The converter calls it on the first group of a
  match of \<^verbatim>\<open>[A-Z][A-Z0-9]?\<close> only, which holds ASCII letters and digits.
\<close>

definition upper_char :: "char \<Rightarrow> char" where
  "upper_char c =
     (case map_of (zip ''abcdefghijklmnopqrstuvwxyz'' ''ABCDEFGHIJKLMNOPQRSTUVWXYZ'') c of
        Some u \<Rightarrow> u
      | None \<Rightarrow> c)"

definition upper :: "string \<Rightarrow> string" where
  "upper s = map upper_char s"

definition lstrip :: "string \<Rightarrow> string" where
  "lstrip s = dropWhile is_space s"

definition rstrip :: "string \<Rightarrow> string" where
  "rstrip s = rev (dropWhile is_space (rev s))"

definition strip :: "string \<Rightarrow> string" where
  "strip s = rstrip (lstrip s)"

definition startswith :: "string \<Rightarrow> string \<Rightarrow> bool" where
  "startswith s pre = (take (length pre) s = pre)"

text \<open>\<^verbatim>\<open>':'.join(parts)\<close>\<close>

fun join_colon :: "string list \<Rightarrow> string" where
  "join_colon [] = []"
| "join_colon [x] = x"
| "join_colon (x # y # ys) = x @ CHR '':'' # join_colon (y # ys)"

subsection \<open>Integers and their decimal text\<close>

definition digit_val :: "char \<Rightarrow> nat" where
  "digit_val c = of_char c - 48"

definition digit_char :: "nat \<Rightarrow> char" where
  "digit_char d = char_of (48 + d)"

text \<open>\<^verbatim>\<open>str(n)\<close> and the \<^verbatim>\<open>{n}\<close> of an f-string, for an integer.\<close>

fun show_nat :: "nat \<Rightarrow> string" where
  "show_nat n = (if n < 10 then [digit_char n] else show_nat (n div 10) @ [digit_char (n mod 10)])"

definition show_int :: "int \<Rightarrow> string" where
  "show_int i = (if i < 0 then CHR ''-'' # show_nat (nat (- i)) else show_nat (nat i))"

text \<open>
  \<^verbatim>\<open>int(s)\<close> on a match of \<^verbatim>\<open>\d+\<close>: the value of a run of decimal digits. On such a
  string \<^verbatim>\<open>int\<close> cannot raise: the lemmas \<open>FOR_bound_int\<close>, \<open>LINE_NUM_int\<close> and
  \<open>CHR_CALL_int\<close> below show that \<open>py_int\<close> gives this value on the groups that the
  converter passes to \<^verbatim>\<open>int\<close>.
\<close>

definition nat_of_digits :: "string \<Rightarrow> nat" where
  "nat_of_digits ds = foldl (\<lambda>a c. a * 10 + digit_val c) 0 ds"

text \<open>
  \<^verbatim>\<open>int(s, 10)\<close> in general, \<open>None\<close> for \<^verbatim>\<open>ValueError\<close>: white space around the
  literal is skipped, then an optional sign, then digits, where single underscores may
  stand between two digits. \<^verbatim>\<open>int\<close> skips the white space of C (and the two Latin-1
  spaces, which CPython turns into blanks first), not the separators 0x1C to 0x1F.
\<close>

definition is_int_space :: "char \<Rightarrow> bool" where
  "is_int_space c = (c \<in> set [CHR 0x09, CHR 0x0A, CHR 0x0B, CHR 0x0C, CHR 0x0D, CHR 0x20,
     CHR 0x85, CHR 0xA0])"

fun int_digits :: "nat \<Rightarrow> string \<Rightarrow> nat option" where
  "int_digits acc [] = Some acc"
| "int_digits acc (c # cs) =
     (if is_digit c then int_digits (acc * 10 + digit_val c) cs
      else if c = CHR ''_'' then
        (case cs of
           [] \<Rightarrow> None
         | d # ds \<Rightarrow> if is_digit d then int_digits (acc * 10 + digit_val d) ds else None)
      else None)"

definition int_body :: "string \<Rightarrow> nat option" where
  "int_body s =
     (case s of
        [] \<Rightarrow> None
      | c # cs \<Rightarrow> if is_digit c then int_digits (digit_val c) cs else None)"

definition py_int :: "string \<Rightarrow> int option" where
  "py_int s =
     (let t = rev (dropWhile is_int_space (rev (dropWhile is_int_space s))) in
      case t of
        [] \<Rightarrow> None
      | c # cs \<Rightarrow>
          if c = CHR ''-'' then map_option (\<lambda>n. - int n) (int_body cs)
          else if c = CHR ''+'' then map_option int (int_body cs)
          else map_option int (int_body t))"

section \<open>The regular expressions of the converter\<close>

text \<open>
  The patterns of \<^verbatim>\<open>sidconv.py\<close> are sequences of character classes under a
  quantifier (greedy or lazy), capturing groups, one optional group and the anchors
  \<^verbatim>\<open>^\<close> and \<^verbatim>\<open>$\<close>. \<open>rx\<close> is that fragment:
  \<^item> \<open>Cls p lo hi greedy\<close>: a class \<open>p\<close> repeated \<open>lo\<close> to \<open>hi\<close> times (\<open>None\<close>: no bound),
    longest first when greedy, shortest first when lazy;
  \<^item> \<open>Grp n rs\<close>: the capturing group number \<open>n\<close>; \<open>Opt rs\<close>: \<^verbatim>\<open>(rs)?\<close>, taken first;
  \<^item> \<open>Bos\<close>: \<^verbatim>\<open>^\<close>; \<open>Eos\<close>: \<^verbatim>\<open>$\<close>, the end of the string or the place before a newline
    that ends it;
  \<^item> \<open>Close n l\<close> is not written in a pattern: it ends group \<open>n\<close>, opened when \<open>l\<close>
    characters were left.
\<close>

datatype rx =
    Bos
  | Eos
  | Cls "char \<Rightarrow> bool" nat "nat option" bool
  | Grp nat "rx list"
  | Opt "rx list"
  | Close nat nat

type_synonym caps = "nat \<Rightarrow> string option"

text \<open>The repetition counts a quantified class tries at \<open>s\<close>, in the order it tries them.\<close>

definition reps :: "(char \<Rightarrow> bool) \<Rightarrow> nat \<Rightarrow> nat option \<Rightarrow> bool \<Rightarrow> string \<Rightarrow> nat list" where
  "reps p lo hi greedy s =
     (let avail = length (takeWhile p s);
          top = (case hi of None \<Rightarrow> avail | Some h \<Rightarrow> min h avail);
          ns = [lo..<Suc top]
      in if greedy then rev ns else ns)"

fun first_some :: "('a \<Rightarrow> 'b option) \<Rightarrow> 'a list \<Rightarrow> 'b option" where
  "first_some f [] = None"
| "first_some f (x # xs) = (case f x of Some r \<Rightarrow> Some r | None \<Rightarrow> first_some f xs)"

text \<open>
  \<open>rmatch rs inp s caps\<close> matches the pattern \<open>rs\<close> at the suffix \<open>s\<close> of the subject
  \<open>inp\<close> as a backtracking matcher does: the first way that succeeds, in the order of
  the alternatives, gives the result, the text left after the match and the groups.
\<close>

fun rx_weight :: "rx \<Rightarrow> nat" where
  "rx_weight (Grp n rs) = 2 + sum_list (map rx_weight rs)"
| "rx_weight (Opt rs) = 1 + sum_list (map rx_weight rs)"
| "rx_weight r = 1"

function rmatch :: "rx list \<Rightarrow> string \<Rightarrow> string \<Rightarrow> caps \<Rightarrow> (string \<times> caps) option" where
  "rmatch [] inp s caps = Some (s, caps)"
| "rmatch (Bos # k) inp s caps = (if length s = length inp then rmatch k inp s caps else None)"
| "rmatch (Eos # k) inp s caps =
     (if s = [] \<or> s = [CHR 0x0A] then rmatch k inp s caps else None)"
| "rmatch (Cls p lo hi greedy # k) inp s caps =
     first_some (\<lambda>n. rmatch k inp (drop n s) caps) (reps p lo hi greedy s)"
| "rmatch (Grp n rs # k) inp s caps = rmatch (rs @ Close n (length s) # k) inp s caps"
| "rmatch (Close n l # k) inp s caps =
     rmatch k inp s (caps(n \<mapsto> take (l - length s) (drop (length inp - l) inp)))"
| "rmatch (Opt rs # k) inp s caps =
     (case rmatch (rs @ k) inp s caps of Some r \<Rightarrow> Some r | None \<Rightarrow> rmatch k inp s caps)"
  by pat_completeness auto
termination
  by (relation "measure (\<lambda>(rs, inp, s, caps). sum_list (map rx_weight rs))") auto

text \<open>
  For the proofs: the character classes that occur in a pattern. A character that a
  match consumes is admitted by one of them.
\<close>

fun rx_classes :: "rx \<Rightarrow> (char \<Rightarrow> bool) list" where
  "rx_classes (Cls p lo hi greedy) = [p]"
| "rx_classes (Grp n rs) = concat (map rx_classes rs)"
| "rx_classes (Opt rs) = concat (map rx_classes rs)"
| "rx_classes r = []"

definition admits :: "rx list \<Rightarrow> char \<Rightarrow> bool" where
  "admits rs c = (\<exists>p \<in> set (concat (map rx_classes rs)). p c)"

text \<open>
  For the proofs: the numbers of the groups that a pattern closes, and the patterns with
  an item at their top level that consumes at least one character.
\<close>

fun closes :: "rx \<Rightarrow> nat list" where
  "closes (Grp n rs) = n # concat (map closes rs)"
| "closes (Opt rs) = concat (map closes rs)"
| "closes (Close n l) = [n]"
| "closes r = []"

definition group_nums :: "rx list \<Rightarrow> nat set" where
  "group_nums rs = set (concat (map closes rs))"

definition needs_char :: "rx list \<Rightarrow> bool" where
  "needs_char rs = (\<exists>pre q lo hi g k. rs = pre @ Cls q (Suc lo) hi g # k)"

text \<open>\<^verbatim>\<open>pattern.match(s)\<close>: the groups of the match at the start of \<open>s\<close>.\<close>

definition re_match :: "rx list \<Rightarrow> string \<Rightarrow> caps option" where
  "re_match rs s = map_option snd (rmatch rs s s Map.empty)"

text \<open>
  \<^verbatim>\<open>m.group(1)\<close> of a match that may be \<^verbatim>\<open>None\<close>, and the pair of \<^verbatim>\<open>m.group(1)\<close> and
  \<^verbatim>\<open>m.group(2)\<close>. In the patterns where they are used, these groups take part in every
  match.
\<close>

definition group1 :: "caps option \<Rightarrow> string option" where
  "group1 m = (case m of None \<Rightarrow> None | Some g \<Rightarrow> g 1)"

definition groups12 :: "caps option \<Rightarrow> (string \<times> string) option" where
  "groups12 m =
     (case m of
        None \<Rightarrow> None
      | Some g \<Rightarrow> (case (g 1, g 2) of (Some a, Some b) \<Rightarrow> Some (a, b) | _ \<Rightarrow> None))"

subsection \<open>Pattern atoms\<close>

definition one :: "(char \<Rightarrow> bool) \<Rightarrow> rx" where
  "one p = Cls p 1 (Some 1) True"

definition star :: "(char \<Rightarrow> bool) \<Rightarrow> rx" where
  "star p = Cls p 0 None True"

definition plus :: "(char \<Rightarrow> bool) \<Rightarrow> rx" where
  "plus p = Cls p 1 None True"

definition plus_lazy :: "(char \<Rightarrow> bool) \<Rightarrow> rx" where
  "plus_lazy p = Cls p 1 None False"

definition opt1 :: "(char \<Rightarrow> bool) \<Rightarrow> rx" where
  "opt1 p = Cls p 0 (Some 1) True"

text \<open>A literal character of a pattern compiled with \<^verbatim>\<open>re.IGNORECASE\<close>.\<close>

definition ic :: "char \<Rightarrow> char \<Rightarrow> bool" where
  "ic l c = (upper_char c = upper_char l)"

definition word_ic :: "string \<Rightarrow> rx list" where
  "word_ic w = map (\<lambda>l. one (ic l)) w"

text \<open>\<^verbatim>\<open>.\<close>: every character but the newline.\<close>

definition dot :: "char \<Rightarrow> bool" where
  "dot c = (c \<noteq> CHR 0x0A)"

subsection \<open>The patterns\<close>

text \<open>\<^verbatim>\<open>LINE_NUM_RE = re.compile(r"^\s*(\d+)\s*(.*)$")\<close>\<close>

definition LINE_NUM_RE :: "rx list" where
  "LINE_NUM_RE = [Bos, star is_space, Grp 1 [plus is_digit], star is_space, Grp 2 [star dot], Eos]"

text \<open>\<^verbatim>\<open>ASSIGN_BASE_RE = re.compile(r"^\s*(?:LET\s+)?([A-Z][A-Z0-9]?)\s*=\s*54272\s*$", re.IGNORECASE)\<close>\<close>

definition ASSIGN_BASE_RE :: "rx list" where
  "ASSIGN_BASE_RE =
     [Bos, star is_space, Opt (word_ic ''LET'' @ [plus is_space]),
      Grp 1 [one is_alpha, opt1 is_alnum], star is_space, one (ic CHR ''=''), star is_space]
     @ word_ic ''54272'' @ [star is_space, Eos]"

text \<open>\<^verbatim>\<open>POKE_STMT_RE = re.compile(r"^\s*POKE\s+(.+?)\s*,\s*(.+?)\s*$", re.IGNORECASE)\<close>\<close>

definition POKE_STMT_RE :: "rx list" where
  "POKE_STMT_RE =
     [Bos, star is_space] @ word_ic ''POKE'' @
     [plus is_space, Grp 1 [plus_lazy dot], star is_space, one (ic CHR '',''), star is_space,
      Grp 2 [plus_lazy dot], star is_space, Eos]"

text \<open>\<^verbatim>\<open>FOR_RE = re.compile(r"^\s*FOR\s+([A-Z][A-Z0-9]?)\s*=\s*1\s+TO\s*(\d+)\s*$", re.IGNORECASE)\<close>\<close>

definition FOR_RE :: "rx list" where
  "FOR_RE =
     [Bos, star is_space] @ word_ic ''FOR'' @
     [plus is_space, Grp 1 [one is_alpha, opt1 is_alnum], star is_space, one (ic CHR ''=''),
      star is_space, one (ic CHR ''1''), plus is_space] @ word_ic ''TO'' @
     [star is_space, Grp 2 [plus is_digit], star is_space, Eos]"

text \<open>The alias pattern of \<^verbatim>\<open>rewrite_poke\<close>: \<^verbatim>\<open>r"^([A-Z][A-Z0-9]?)(\+(.+))?$"\<close>, \<^verbatim>\<open>re.IGNORECASE\<close>\<close>

definition ALIAS_RE :: "rx list" where
  "ALIAS_RE =
     [Bos, Grp 1 [one is_alpha, opt1 is_alnum],
      Opt [Grp 2 [one (ic CHR ''+''), Grp 3 [plus dot]]], Eos]"

text \<open>The pattern of the key-read rewrite: \<^verbatim>\<open>r"^\s*GET\s+([A-Z][A-Z0-9]?)\$?\s*$"\<close>, \<^verbatim>\<open>re.IGNORECASE\<close>\<close>

definition GET_RE :: "rx list" where
  "GET_RE =
     [Bos, star is_space] @ word_ic ''GET'' @
     [plus is_space, Grp 1 [one is_alpha, opt1 is_alnum], opt1 (ic CHR ''$''), star is_space, Eos]"

text \<open>\<^verbatim>\<open>CHR_CALL_RE = re.compile(r"CHR\$\(\s*(\d+)\s*\)", re.IGNORECASE)\<close>\<close>

definition CHR_CALL_RE :: "rx list" where
  "CHR_CALL_RE =
     word_ic ''CHR'' @
     [one (ic CHR ''$''), one (ic CHR ''(''), star is_space, Grp 1 [plus is_digit], star is_space,
      one (ic CHR '')'')]"

section \<open>The statement splitter\<close>

text \<open>
  \<^verbatim>\<open>split_colon_statements\<close>: the loop over the characters with its two variables, the
  parts flushed so far and the buffer, then the flush of a tail that is not empty.
\<close>

fun split_loop :: "string \<Rightarrow> string list \<Rightarrow> string \<Rightarrow> string list" where
  "split_loop [] parts buf = (let tail = strip buf in if tail \<noteq> [] then parts @ [tail] else parts)"
| "split_loop (c # cs) parts buf =
     (if c = CHR '':'' then split_loop cs (parts @ [strip buf]) []
      else split_loop cs parts (buf @ [c]))"

definition split_colon_statements :: "string \<Rightarrow> string list" where
  "split_colon_statements s = split_loop s [] []"

text \<open>
  The segments of a string between the occurrences of the delimiter, as the
  specification words the splitter: \<open>n\<close> colons bound \<open>n + 1\<close> segments.
\<close>

fun segments :: "string \<Rightarrow> string list" where
  "segments [] = [[]]"
| "segments (c # cs) =
     (if c = CHR '':'' then [] # segments cs
      else (case segments cs of [] \<Rightarrow> [[c]] | x # xs \<Rightarrow> (c # x) # xs))"

section \<open>The POKE rewriter\<close>

text \<open>
  The offset expression of \<^verbatim>\<open>rewrite_poke\<close> (its \<^verbatim>\<open>offset_expr\<close>), from the address
  without white space: \<open>None\<close> when the address is no sound-chip address.
\<close>

text \<open>
  A match of the alias pattern: its group 1, and its group 3, which is \<open>None\<close> when the
  optional part did not take part.
\<close>

definition alias_match :: "string \<Rightarrow> (string \<times> string option) option" where
  "alias_match s =
     (case re_match ALIAS_RE s of
        None \<Rightarrow> None
      | Some g \<Rightarrow> (case g 1 of None \<Rightarrow> None | Some name \<Rightarrow> Some (name, g 3)))"

definition offset_expr :: "string \<Rightarrow> string set \<Rightarrow> string option" where
  "offset_expr addr_expr_no_sp base_vars =
     (if startswith addr_expr_no_sp ''54272+'' then Some (drop (length ''54272+'') addr_expr_no_sp)
      else if addr_expr_no_sp = ''54272'' then Some ''0''
      else
        (case alias_match addr_expr_no_sp of
           None \<Rightarrow> None
         | Some (name, g3) \<Rightarrow>
             if upper name \<in> base_vars
             then (case g3 of Some off \<Rightarrow> Some off | None \<Rightarrow> Some ''0'')
             else None))"

text \<open>The annotation of \<^verbatim>\<open>rewrite_poke\<close> (its \<^verbatim>\<open>rem\<close>).\<close>

definition range_rem :: "bool \<Rightarrow> string \<Rightarrow> string" where
  "range_rem warn_out_of_range off =
     (if warn_out_of_range then
        (case py_int off of
           None \<Rightarrow> []
         | Some off_eval \<Rightarrow>
             if off_eval < 0 \<or> off_eval > 24
             then '' : REM WARN: SID reg '' @ show_int off_eval @ '' out of 0-24''
             else [])
      else [])"

text \<open>\<^verbatim>\<open>rewrite_poke\<close>: \<open>None\<close> is the pair \<^verbatim>\<open>(None, None)\<close>.\<close>

definition rewrite_poke :: "string \<Rightarrow> string \<Rightarrow> string set \<Rightarrow> bool \<Rightarrow> (string \<times> string) option" where
  "rewrite_poke arg_addr arg_val base_vars warn_out_of_range =
     (let addr_expr = strip arg_addr;
          val_expr = strip arg_val;
          addr_expr_no_sp = filter (\<lambda>c. \<not> is_space c) addr_expr
      in case offset_expr addr_expr_no_sp base_vars of
           None \<Rightarrow> None
         | Some off \<Rightarrow>
             Some (''OUT REG,'' @ off, ''OUT DAT,'' @ val_expr @ range_rem warn_out_of_range off))"

section \<open>Screen control characters\<close>

definition ANSI_CHR_MAP :: "nat \<Rightarrow> string option" where
  "ANSI_CHR_MAP = map_of
     [(147, CHR 0x1B # ''[2J'' @ CHR 0x1B # ''[H''),
      (19, CHR 0x1B # ''[H''),
      (17, CHR 0x1B # ''[B''),
      (145, CHR 0x1B # ''[A''),
      (157, CHR 0x1B # ''[D''),
      (29, CHR 0x1B # ''[C''),
      (5, CHR 0x1B # ''[37m''),
      (28, CHR 0x1B # ''[31m''),
      (30, CHR 0x1B # ''[32m''),
      (31, CHR 0x1B # ''[34m''),
      (144, CHR 0x1B # ''[30m''),
      (18, CHR 0x1B # ''[0m'')]"

text \<open>The replacement function \<^verbatim>\<open>repl\<close>, from the matched text and its group 1.\<close>

definition repl :: "string \<Rightarrow> string \<Rightarrow> string" where
  "repl whole g1 =
     (case ANSI_CHR_MAP (nat_of_digits g1) of
        Some esc \<Rightarrow> [CHR 0x22] @ esc @ [CHR 0x22]
      | None \<Rightarrow> whole)"

text \<open>
  \<^verbatim>\<open>CHR_CALL_RE.sub(repl, stmt)\<close>: the leftmost match is replaced and the scan goes on
  behind it; a character where no match starts is copied. A match of this pattern is
  never empty; the test on the lengths is there for the termination proof only.
\<close>

function chr_sub :: "string \<Rightarrow> string" where
  "chr_sub [] = []"
| "chr_sub (c # cs) =
     (case rmatch CHR_CALL_RE (c # cs) (c # cs) Map.empty of
        None \<Rightarrow> c # chr_sub cs
      | Some (rest, g) \<Rightarrow>
          if length rest \<le> length cs
          then repl (take (length (c # cs) - length rest) (c # cs)) (case g 1 of Some t \<Rightarrow> t | None \<Rightarrow> [])
               @ chr_sub rest
          else c # chr_sub cs)"
  by pat_completeness auto
termination
  by (relation "measure length") auto

definition map_chr_calls_to_profile :: "string \<Rightarrow> string \<Rightarrow> string" where
  "map_chr_calls_to_profile stmt screen_profile =
     (if screen_profile \<noteq> ''ansi'' then stmt else chr_sub stmt)"

section \<open>The rewrite of a line body\<close>

text \<open>
  The first loop of \<^verbatim>\<open>process_line_body\<close>, for one statement: the scaling of the bound
  of a simple loop. \<open>scale_for\<close> is \<open>None\<close> for Python's \<^verbatim>\<open>None\<close>.
\<close>

definition scale_stmt :: "int option \<Rightarrow> string set \<Rightarrow> string \<Rightarrow> string" where
  "scale_stmt scale_for scale_for_vars stmt =
     (let s = strip stmt in
      case scale_for of
        None \<Rightarrow> s
      | Some f \<Rightarrow>
          if f \<noteq> 0 \<and> f > 1 then
            (case groups12 (re_match FOR_RE s) of
               None \<Rightarrow> s
             | Some (var, bound) \<Rightarrow>
                 if upper var \<in> scale_for_vars
                 then ''FOR '' @ var @ ''=1 TO '' @ show_int (int (nat_of_digits bound) * f)
                 else s)
          else s)"

text \<open>
  The second loop, for one statement. \<open>poke_stmt\<close> is its attempt at a POKE rewrite: the
  two parts it appends to \<^verbatim>\<open>out_parts\<close>, or \<open>None\<close> when the statement is no POKE
  of the sound chip and falls through. \<open>rewrite_stmt\<close> is the whole body of the loop: the
  parts that the statement adds to \<^verbatim>\<open>out_parts\<close>.
\<close>

definition poke_stmt :: "string set \<Rightarrow> bool \<Rightarrow> string \<Rightarrow> string list option" where
  "poke_stmt base_vars warn_out_of_range s =
     (case groups12 (re_match POKE_STMT_RE s) of
        None \<Rightarrow> None
      | Some (addr, val) \<Rightarrow>
          (case rewrite_poke addr val base_vars warn_out_of_range of
             None \<Rightarrow> None
           | Some (out_reg, out_dat) \<Rightarrow>
               if out_reg \<noteq> [] \<and> out_dat \<noteq> [] then Some [out_reg, out_dat] else None))"

definition rewrite_stmt :: "string set \<Rightarrow> bool \<Rightarrow> string \<Rightarrow> bool \<Rightarrow> string \<Rightarrow> string list" where
  "rewrite_stmt base_vars warn_out_of_range screen_profile map_get_to_inkey s =
     (case (if map_get_to_inkey then group1 (re_match GET_RE s) else None) of
        Some var \<Rightarrow> [upper var @ ''$'' @ ''=INKEY$'']
      | None \<Rightarrow>
          (case poke_stmt base_vars warn_out_of_range s of
             Some parts \<Rightarrow> parts
           | None \<Rightarrow> [map_chr_calls_to_profile s screen_profile]))"

definition process_line_body ::
  "string \<Rightarrow> string set \<Rightarrow> bool \<Rightarrow> int option \<Rightarrow> string set \<Rightarrow> string \<Rightarrow> bool \<Rightarrow> string" where
  "process_line_body body base_vars warn_out_of_range scale_for scale_for_vars screen_profile
       map_get_to_inkey =
     (let stmts = split_colon_statements body;
          scaled_stmts = map (scale_stmt scale_for scale_for_vars) stmts;
          out_parts =
            concat (map (rewrite_stmt base_vars warn_out_of_range screen_profile map_get_to_inkey)
              scaled_stmts)
      in join_colon out_parts)"

section \<open>The program assembler\<close>

text \<open>
  The command line, parsed: \<open>scale_for_vars\<close> is the set that \<^verbatim>\<open>main\<close> builds from the
  comma-separated option.
\<close>

record args =
  reg :: int
  dat :: int
  warn_out_of_range :: bool
  scale_for :: int
  scale_for_vars :: "string set"
  screen_profile :: string
  map_get_to_inkey :: bool

text \<open>The first pass, for one line: its number, if it has one, and its body.\<close>

definition parse_line :: "string \<Rightarrow> nat option \<times> string" where
  "parse_line raw =
     (case groups12 (re_match LINE_NUM_RE raw) of
        None \<Rightarrow> (None, rstrip raw)
      | Some (ln, body) \<Rightarrow> (Some (nat_of_digits ln), strip body))"

text \<open>The name that a statement assigns the base address to, in upper case.\<close>

definition assigned_base :: "string \<Rightarrow> string option" where
  "assigned_base stmt =
     map_option upper (group1 (re_match ASSIGN_BASE_RE stmt))"

definition line_base_vars :: "nat option \<times> string \<Rightarrow> string list" where
  "line_base_vars pl =
     (case fst pl of
        None \<Rightarrow> []
      | Some ln \<Rightarrow> List.map_filter assigned_base (split_colon_statements (snd pl)))"

definition collect_base_vars :: "(nat option \<times> string) list \<Rightarrow> string set" where
  "collect_base_vars parsed_lines = set (concat (map line_base_vars parsed_lines))"

definition first_line_num :: "(nat option \<times> string) list \<Rightarrow> nat option" where
  "first_line_num parsed_lines =
     (case List.map_filter fst parsed_lines of [] \<Rightarrow> None | ln # _ \<Rightarrow> Some ln)"

definition header_text :: "args \<Rightarrow> string" where
  "header_text a = ''B=0:REG='' @ show_int (reg a) @ '':DAT='' @ show_int (dat a)"

definition header_line :: "args \<Rightarrow> (nat option \<times> string) list \<Rightarrow> string" where
  "header_line a parsed_lines =
     (case first_line_num parsed_lines of
        Some n \<Rightarrow> show_int (max 0 (int n - 5)) @ '' '' @ header_text a
      | None \<Rightarrow> ''5 '' @ header_text a)"

text \<open>The rewrite of the assignments of the base address in a rewritten body.\<close>

definition replace_base_assign :: "string set \<Rightarrow> string \<Rightarrow> string" where
  "replace_base_assign base_vars s =
     (case assigned_base s of
        None \<Rightarrow> s
      | Some name \<Rightarrow> if name \<in> base_vars then name @ ''=0'' else s)"

definition fix_base_assigns :: "string set \<Rightarrow> string \<Rightarrow> string" where
  "fix_base_assigns base_vars new_body =
     (let stmts = split_colon_statements new_body;
          replaced = (\<exists>s \<in> set stmts. case assigned_base s of
                                         None \<Rightarrow> False
                                       | Some name \<Rightarrow> name \<in> base_vars)
      in if replaced then join_colon (map (replace_base_assign base_vars) stmts) else new_body)"

text \<open>The second pass, for one line.\<close>

definition out_line :: "args \<Rightarrow> string set \<Rightarrow> nat option \<times> string \<Rightarrow> string" where
  "out_line a base_vars pl =
     (case fst pl of
        None \<Rightarrow> snd pl
      | Some ln \<Rightarrow>
          (let new_body =
                 fix_base_assigns base_vars
                   (process_line_body (snd pl) base_vars (warn_out_of_range a)
                      (if scale_for a > 0 then Some (scale_for a) else None) (scale_for_vars a)
                      (screen_profile a) (map_get_to_inkey a))
           in if strip new_body = [] then show_nat ln else show_nat ln @ '' '' @ new_body))"

text \<open>
  \<^verbatim>\<open>main\<close>, from the lines of the input file (\<^verbatim>\<open>f.read().splitlines()\<close>) to the lines
  it joins and writes.
\<close>

definition main :: "args \<Rightarrow> string list \<Rightarrow> string list" where
  "main a lines =
     (let parsed_lines = map parse_line lines;
          base_vars = collect_base_vars parsed_lines
      in header_line a parsed_lines # map (out_line a base_vars) parsed_lines)"

text \<open>The options when the command line gives none.\<close>

definition default_args :: args where
  "default_args =
     \<lparr>reg = 212, dat = 213, warn_out_of_range = False, scale_for = 0,
      scale_for_vars = {''T'', ''W'', ''DELAY'', ''D''}, screen_profile = ''ansi'',
      map_get_to_inkey = False\<rparr>"

section \<open>Notions for the proofs\<close>

text \<open>A string without white space at its ends: \<open>strip\<close> leaves it as it is.\<close>

definition trimmed :: "string \<Rightarrow> bool" where
  "trimmed s = (s = [] \<or> (\<not> is_space (hd s) \<and> \<not> is_space (last s)))"

text \<open>The final flush of the splitter: a last entry that is empty is not kept.\<close>

definition drop_empty_tail :: "string list \<Rightarrow> string list" where
  "drop_empty_tail xs = (if last xs = [] then butlast xs else xs)"

text \<open>
  A name as the alias pattern reads it: a letter, or a letter followed by a letter or a
  digit.
\<close>

definition alias_token :: "string \<Rightarrow> bool" where
  "alias_token a =
     (case a of
        [c] \<Rightarrow> is_alpha c
      | [c, d] \<Rightarrow> is_alpha c \<and> is_alnum d
      | _ \<Rightarrow> False)"

section \<open>Strings and the splitter\<close>

lemma strip_Nil [simp]: "strip [] = []"
  by (simp add: strip_def lstrip_def rstrip_def)

lemma strip_trimmed_id: "trimmed s \<Longrightarrow> strip s = s"
proof (cases s rule: rev_cases)
  case Nil
  then show ?thesis by simp
next
  case (snoc ys y)
  assume "trimmed s"
  with snoc have h: "\<not> is_space (hd s)" and l: "\<not> is_space y"
    by (simp_all add: trimmed_def)
  have "lstrip s = s"
  proof (cases s)
    case Nil
    then show ?thesis by (simp add: lstrip_def)
  next
    case (Cons a as)
    with h show ?thesis by (simp add: lstrip_def)
  qed
  moreover from snoc l have "rstrip s = s"
    by (simp add: rstrip_def)
  ultimately show ?thesis by (simp add: strip_def)
qed

lemma rstrip_trimmed_end: "rstrip s = [] \<or> \<not> is_space (last (rstrip s))"
proof (induction s rule: rev_induct)
  case Nil
  then show ?case by (simp add: rstrip_def)
next
  case (snoc x xs)
  then show ?case by (cases "is_space x") (simp_all add: rstrip_def)
qed

lemma rstrip_hd: "rstrip s \<noteq> [] \<Longrightarrow> hd (rstrip s) = hd s"
proof (induction s rule: rev_induct)
  case Nil
  then show ?case by (simp add: rstrip_def)
next
  case (snoc x xs)
  show ?case
  proof (cases "is_space x")
    case True
    with snoc show ?thesis by (cases xs) (simp_all add: rstrip_def)
  next
    case False
    then show ?thesis by (simp add: rstrip_def)
  qed
qed

lemma lstrip_hd: "lstrip s \<noteq> [] \<Longrightarrow> \<not> is_space (hd (lstrip s))"
  unfolding lstrip_def by (metis hd_dropWhile)

lemma trimmed_strip: "trimmed (strip s)"
proof (cases "strip s = []")
  case True
  then show ?thesis by (simp add: trimmed_def)
next
  case False
  then have ne: "rstrip (lstrip s) \<noteq> []" by (simp add: strip_def)
  then have "lstrip s \<noteq> []" by (auto simp: rstrip_def)
  then have "\<not> is_space (hd (lstrip s))" by (rule lstrip_hd)
  with ne have "\<not> is_space (hd (strip s))" by (simp add: strip_def rstrip_hd)
  moreover from ne rstrip_trimmed_end [of "lstrip s"] have "\<not> is_space (last (strip s))"
    by (simp add: strip_def)
  ultimately show ?thesis by (simp add: trimmed_def)
qed

lemma strip_idem: "strip (strip s) = strip s"
  by (rule strip_trimmed_id) (rule trimmed_strip)

lemma segments_ne [simp]: "segments s \<noteq> []"
  by (induction s) (auto split: list.splits)

lemma segments_Cons:
  "segments (c # cs) =
     (if c = CHR '':'' then [] # segments cs else (c # hd (segments cs)) # tl (segments cs))"
  by (cases "segments cs") simp_all

declare segments.simps(2) [simp del]

lemma split_loop_segments:
  "split_loop s parts buf =
     parts @ drop_empty_tail (map strip ((buf @ hd (segments s)) # tl (segments s)))"
proof (induction s arbitrary: parts buf)
  case Nil
  then show ?case by (simp add: drop_empty_tail_def Let_def)
next
  case (Cons c cs)
  show ?case
  proof (cases "c = CHR '':''")
    case True
    have "drop_empty_tail (strip buf # map strip (segments cs))
        = strip buf # drop_empty_tail (map strip (segments cs))"
      by (simp add: drop_empty_tail_def last_map)
    moreover have "segments cs = hd (segments cs) # tl (segments cs)"
      by simp
    ultimately show ?thesis using True Cons [of "parts @ [strip buf]" "[]"]
      by (simp add: segments_Cons del: hd_Cons_tl)
  next
    case False
    then show ?thesis using Cons [of parts "buf @ [c]"] by (simp add: segments_Cons)
  qed
qed

lemma split_colon_statements_segments:
  "split_colon_statements s = drop_empty_tail (map strip (segments s))"
  using split_loop_segments [of s "[]" "[]"]
  by (simp add: split_colon_statements_def)

section \<open>The matcher\<close>

lemma first_some_SomeD: "first_some f xs = Some r \<Longrightarrow> \<exists>x \<in> set xs. f x = Some r"
  by (induction xs) (auto split: option.splits)

lemma reps_bounds:
  "n \<in> set (reps p lo hi g s) \<Longrightarrow>
     lo \<le> n \<and> n \<le> length (takeWhile p s) \<and> (\<forall>h. hi = Some h \<longrightarrow> n \<le> h)"
  by (auto simp: reps_def Let_def split: option.splits if_splits)

lemma rmatch_ClsD:
  assumes "rmatch (Cls p lo hi g # k) inp s caps = Some r"
  shows "\<exists>n. lo \<le> n \<and> n \<le> length (takeWhile p s) \<and> (\<forall>h. hi = Some h \<longrightarrow> n \<le> h)
            \<and> rmatch k inp (drop n s) caps = Some r"
proof -
  from assms obtain n where "n \<in> set (reps p lo hi g s)" and "rmatch k inp (drop n s) caps = Some r"
    by (auto dest: first_some_SomeD)
  then show ?thesis using reps_bounds [of n p lo hi g s] by blast
qed

lemma take_takeWhile_all: "n \<le> length (takeWhile p s) \<Longrightarrow> \<forall>c \<in> set (take n s). p c"
proof -
  assume "n \<le> length (takeWhile p s)"
  then have "take n s = take n (takeWhile p s)"
    by (metis append_eq_conv_conj takeWhile_dropWhile_id take_append take_all_iff
        diff_is_0_eq' take_0 append_Nil2 min.absorb4 min_def) 
  then show ?thesis
    by (metis in_set_takeD set_takeWhileD)
qed

lemma rmatch_one:
  "rmatch (one q # k) inp s caps =
     (case s of [] \<Rightarrow> None | c # t \<Rightarrow> if q c then rmatch k inp t caps else None)"
  by (cases s) (simp_all add: one_def reps_def split: option.splits)

lemma admits_append: "admits (rs @ qs) c = (admits rs c \<or> admits qs c)"
  by (auto simp: admits_def)

lemma admits_simps:
  "admits [] c = False"
  "admits (Bos # k) c = admits k c"
  "admits (Eos # k) c = admits k c"
  "admits (Close n l # k) c = admits k c"
  "admits (Cls p lo hi g # k) c = (p c \<or> admits k c)"
  "admits (Grp n rs # k) c = (admits rs c \<or> admits k c)"
  "admits (Opt rs # k) c = (admits rs c \<or> admits k c)"
  by (auto simp: admits_def)

lemma rmatch_consumed:
  "rmatch rs inp s caps = Some (rest, caps') \<Longrightarrow>
     \<exists>pre. s = pre @ rest \<and> (\<forall>c \<in> set pre. admits rs c)"
proof (induction rs inp s caps arbitrary: rest caps' rule: rmatch.induct)
  case (1 inp s caps)
  then show ?case by simp
next
  case (2 k inp s caps)
  then show ?case by (auto simp: admits_simps split: if_splits)
next
  case (3 k inp s caps)
  from "3.prems" have c: "s = [] \<or> s = [CHR 0x0A]" and m: "rmatch k inp s caps = Some (rest, caps')"
    by (auto split: if_splits)
  from "3.IH" [OF c m] show ?case by (auto simp: admits_simps)
next
  case (4 p lo hi greedy k inp s caps)
  from rmatch_ClsD [OF "4.prems"] obtain n where
    n: "n \<le> length (takeWhile p s)" and m: "rmatch k inp (drop n s) caps = Some (rest, caps')"
    by blast
  from "4.IH" [OF m] obtain pre where pre: "drop n s = pre @ rest" "\<forall>c \<in> set pre. admits k c"
    by blast
  have "s = (take n s @ pre) @ rest" using pre(1) by (metis append_assoc append_take_drop_id)
  moreover have "\<forall>c \<in> set (take n s @ pre). admits (Cls p lo hi greedy # k) c"
    using take_takeWhile_all [OF n] pre(2)
    by (auto simp: admits_simps)
  ultimately show ?case by blast
next
  case (5 n rs k inp s caps)
  from "5.prems" have "rmatch (rs @ Close n (length s) # k) inp s caps = Some (rest, caps')"
    by simp
  from "5.IH" [OF this] show ?case
    by (auto simp: admits_simps admits_append)
next
  case (6 n l k inp s caps)
  from "6.prems" have
    "rmatch k inp s (caps(n \<mapsto> take (l - length s) (drop (length inp - l) inp))) = Some (rest, caps')"
    by simp
  from "6.IH" [OF this] show ?case
    by (simp add: admits_simps)
next
  case (7 rs k inp s caps)
  show ?case
  proof (cases "rmatch (rs @ k) inp s caps")
    case None
    with "7.prems" have "rmatch k inp s caps = Some (rest, caps')" by simp
    from "7.IH"(2) [OF None this] show ?thesis
      by (auto simp: admits_simps)
  next
    case (Some r)
    with "7.prems" have "rmatch (rs @ k) inp s caps = Some (rest, caps')" by simp
    from "7.IH"(1) [OF this] show ?thesis
      by (auto simp: admits_simps admits_append)
  qed
qed

lemma first_some_all_None: "\<forall>x \<in> set xs. f x = None \<Longrightarrow> first_some f xs = None"
  by (induction xs) simp_all

lemma first_some_append:
  "first_some f (xs @ ys) = (case first_some f xs of Some r \<Rightarrow> Some r | None \<Rightarrow> first_some f ys)"
  by (induction xs) (simp_all split: option.splits)

lemma first_some_upt_last:
  assumes "\<forall>n < N. f n = None"
  shows "first_some f [lo..<Suc N] = (if lo \<le> N then f N else None)"
    and "first_some f (rev [lo..<Suc N]) = (if lo \<le> N then f N else None)"
proof -
  have a: "first_some f [lo..<N] = None"
    using assms by (intro first_some_all_None) simp
  have b: "first_some f (rev [lo..<N]) = None"
    using assms by (intro first_some_all_None) simp
  show "first_some f [lo..<Suc N] = (if lo \<le> N then f N else None)"
    using a by (simp add: first_some_append split: option.splits)
  show "first_some f (rev [lo..<Suc N]) = (if lo \<le> N then f N else None)"
    using b by (simp split: option.splits)
qed

lemma drop_in_takeWhile:
  assumes "n < length (takeWhile p s)"
  shows "\<exists>c t. drop n s = c # t \<and> p c"
proof -
  from assms have n: "n < length s"
    by (meson length_takeWhile_le less_le_trans)
  then have "drop n s = s ! n # drop (Suc n) s"
    by (simp add: Cons_nth_drop_Suc)
  moreover from assms have "p (s ! n)"
    by (metis nth_mem set_takeWhileD takeWhile_nth)
  ultimately show ?thesis by blast
qed

lemma drop_takeWhile_dropWhile: "drop (length (takeWhile p s)) s = dropWhile p s"
  by (metis append_eq_conv_conj takeWhile_dropWhile_id)

lemma rmatch_skip:
  assumes "\<And>c t. p c \<Longrightarrow> rmatch k inp (c # t) caps = None"
  shows "rmatch (Cls p lo None g # k) inp s caps =
           (if lo \<le> length (takeWhile p s) then rmatch k inp (dropWhile p s) caps else None)"
proof -
  have "\<forall>n < length (takeWhile p s). rmatch k inp (drop n s) caps = None"
    using assms drop_in_takeWhile by metis
  from first_some_upt_last [OF this, of lo]
  have a: "first_some (\<lambda>n. rmatch k inp (drop n s) caps) [lo..<Suc (length (takeWhile p s))]
             = (if lo \<le> length (takeWhile p s) then rmatch k inp (dropWhile p s) caps else None)"
    and b: "first_some (\<lambda>n. rmatch k inp (drop n s) caps) (rev [lo..<Suc (length (takeWhile p s))])
             = (if lo \<le> length (takeWhile p s) then rmatch k inp (dropWhile p s) caps else None)"
    by (simp_all only: drop_takeWhile_dropWhile)
  have r: "reps p lo None g s
             = (if g then rev [lo..<Suc (length (takeWhile p s))] else [lo..<Suc (length (takeWhile p s))])"
    by (simp add: reps_def Let_def del: upt_Suc)
  show ?thesis
    unfolding rmatch.simps r by (cases g) (simp_all only: a b if_True if_False)
qed

lemma rmatch_Eos_rest:
  "rmatch rs inp s caps = Some (rest, caps') \<Longrightarrow> rs \<noteq> [] \<Longrightarrow> last rs = Eos \<Longrightarrow>
     rest = [] \<or> rest = [CHR 0x0A]"
proof (induction rs inp s caps arbitrary: rest caps' rule: rmatch.induct)
  case (1 inp s caps)
  then show ?case by simp
next
  case (2 k inp s caps)
  then show ?case by (cases "k = []") (auto split: if_splits)
next
  case (3 k inp s caps)
  then show ?case by (cases "k = []") (auto split: if_splits)
next
  case (4 p lo hi greedy k inp s caps)
  from rmatch_ClsD [OF "4.prems"(1)] obtain n where
    m: "rmatch k inp (drop n s) caps = Some (rest, caps')" by blast
  from "4.prems" have "k \<noteq> []" "last k = Eos" by (auto split: if_splits)
  with "4.IH" [OF m] show ?case by simp
next
  case (5 n rs k inp s caps)
  from "5.prems" have k: "k \<noteq> []" "last k = Eos" by (auto split: if_splits)
  from "5.prems" have "rmatch (rs @ Close n (length s) # k) inp s caps = Some (rest, caps')"
    by simp
  from "5.IH" [OF this] k show ?case by simp
next
  case (6 n l k inp s caps)
  from "6.prems" have k: "k \<noteq> []" "last k = Eos" by (auto split: if_splits)
  from "6.prems" have
    "rmatch k inp s (caps(n \<mapsto> take (l - length s) (drop (length inp - l) inp))) = Some (rest, caps')"
    by simp
  from "6.IH" [OF this] k show ?case by simp
next
  case (7 rs k inp s caps)
  from "7.prems" have k: "k \<noteq> []" "last k = Eos" by (auto split: if_splits)
  show ?case
  proof (cases "rmatch (rs @ k) inp s caps")
    case None
    with "7.prems" have "rmatch k inp s caps = Some (rest, caps')" by simp
    from "7.IH"(2) [OF None this] k show ?thesis by simp
  next
    case (Some r)
    with "7.prems" have "rmatch (rs @ k) inp s caps = Some (rest, caps')" by simp
    from "7.IH"(1) [OF this] k show ?thesis by simp
  qed
qed



lemma rmatch_required:
  "rmatch rs inp s caps = Some r \<Longrightarrow> rs = pre @ Cls q (Suc lo) hi g # k \<Longrightarrow> \<exists>c \<in> set s. q c"
proof (induction rs inp s caps arbitrary: pre rule: rmatch.induct)
  case (1 inp s caps)
  then show ?case by simp
next
  case (2 k0 inp s caps)
  from "2.prems"(2) obtain pre' where p: "k0 = pre' @ Cls q (Suc lo) hi g # k"
    by (cases pre) auto
  from "2.prems"(1) have c: "length s = length inp" and m: "rmatch k0 inp s caps = Some r"
    by (auto split: if_splits)
  from "2.IH" [OF c m p] show ?case .
next
  case (3 k0 inp s caps)
  from "3.prems"(2) obtain pre' where p: "k0 = pre' @ Cls q (Suc lo) hi g # k"
    by (cases pre) auto
  from "3.prems"(1) have c: "s = [] \<or> s = [CHR 0x0A]" and m: "rmatch k0 inp s caps = Some r"
    by (auto split: if_splits)
  from "3.IH" [OF c m p] show ?case .
next
  case (4 p lo' hi' greedy k0 inp s caps)
  from rmatch_ClsD [OF "4.prems"(1)] obtain n where
    n: "lo' \<le> n" "n \<le> length (takeWhile p s)" and m: "rmatch k0 inp (drop n s) caps = Some r"
    by blast
  show ?case
  proof (cases pre)
    case Nil
    with "4.prems"(2) have e: "p = q" "lo' = Suc lo" by simp_all
    with n obtain c t where "takeWhile q s = c # t" by (cases "takeWhile q s") auto
    then have "c \<in> set s \<and> q c"
      by (metis list.set_intros(1) set_takeWhileD)
    then show ?thesis by blast
  next
    case (Cons x pre')
    with "4.prems"(2) have p: "k0 = pre' @ Cls q (Suc lo) hi g # k" by simp
    from "4.IH" [OF m p] obtain c where "c \<in> set (drop n s)" "q c" by blast
    then show ?thesis by (meson in_set_dropD)
  qed
next
  case (5 n rs k0 inp s caps)
  from "5.prems"(2) obtain pre' where p: "k0 = pre' @ Cls q (Suc lo) hi g # k"
    by (cases pre) auto
  from "5.prems"(1) have m: "rmatch (rs @ Close n (length s) # k0) inp s caps = Some r"
    by simp
  have e: "rs @ Close n (length s) # k0 = (rs @ Close n (length s) # pre') @ Cls q (Suc lo) hi g # k"
    using p by simp
  from "5.IH" [OF m e] show ?case .
next
  case (6 n l k0 inp s caps)
  from "6.prems"(2) obtain pre' where p: "k0 = pre' @ Cls q (Suc lo) hi g # k"
    by (cases pre) auto
  from "6.prems"(1) have
    m: "rmatch k0 inp s (caps(n \<mapsto> take (l - length s) (drop (length inp - l) inp))) = Some r"
    by simp
  from "6.IH" [OF m p] show ?case .
next
  case (7 rs k0 inp s caps)
  from "7.prems"(2) obtain pre' where p: "k0 = pre' @ Cls q (Suc lo) hi g # k"
    by (cases pre) auto
  show ?case
  proof (cases "rmatch (rs @ k0) inp s caps")
    case None
    with "7.prems"(1) have "rmatch k0 inp s caps = Some r" by simp
    from "7.IH"(2) [OF None this p] show ?thesis .
  next
    case (Some r')
    with "7.prems"(1) have m: "rmatch (rs @ k0) inp s caps = Some r" by simp
    have "rs @ k0 = (rs @ pre') @ Cls q (Suc lo) hi g # k" using p by simp
    from "7.IH"(1) [OF m this] show ?thesis .
  qed
qed

lemma ic_simps:
  "ic CHR ''P'' c = (c = CHR ''P'' \<or> c = CHR ''p'')"
  "ic CHR ''O'' c = (c = CHR ''O'' \<or> c = CHR ''o'')"
  "ic CHR ''K'' c = (c = CHR ''K'' \<or> c = CHR ''k'')"
  "ic CHR ''E'' c = (c = CHR ''E'' \<or> c = CHR ''e'')"
  "ic CHR ''F'' c = (c = CHR ''F'' \<or> c = CHR ''f'')"
  "ic CHR ''R'' c = (c = CHR ''R'' \<or> c = CHR ''r'')"
  "ic CHR ''L'' c = (c = CHR ''L'' \<or> c = CHR ''l'')"
  "ic CHR ''T'' c = (c = CHR ''T'' \<or> c = CHR ''t'')"
  "ic CHR ''G'' c = (c = CHR ''G'' \<or> c = CHR ''g'')"
  "ic CHR ''C'' c = (c = CHR ''C'' \<or> c = CHR ''c'')"
  "ic CHR ''H'' c = (c = CHR ''H'' \<or> c = CHR ''h'')"
  "ic CHR ''='' c = (c = CHR ''='')"
  "ic CHR '','' c = (c = CHR '','')"
  "ic CHR ''$'' c = (c = CHR ''$'')"
  "ic CHR ''('' c = (c = CHR ''('')"
  "ic CHR '')'' c = (c = CHR '')'')"
  "ic CHR ''+'' c = (c = CHR ''+'')"
  "ic CHR ''1'' c = (c = CHR ''1'')"
  "ic CHR ''2'' c = (c = CHR ''2'')"
  "ic CHR ''4'' c = (c = CHR ''4'')"
  "ic CHR ''5'' c = (c = CHR ''5'')"
  "ic CHR ''7'' c = (c = CHR ''7'')"
  by (auto simp: ic_def upper_char_def split: if_splits)

lemma group_nums_simps:
  "group_nums [] = {}"
  "group_nums (Bos # k) = group_nums k"
  "group_nums (Eos # k) = group_nums k"
  "group_nums (Cls p lo hi g # k) = group_nums k"
  "group_nums (Grp n rs # k) = insert n (group_nums rs \<union> group_nums k)"
  "group_nums (Opt rs # k) = group_nums rs \<union> group_nums k"
  "group_nums (Close n l # k) = insert n (group_nums k)"
  "group_nums (rs @ k) = group_nums rs \<union> group_nums k"
  by (auto simp: group_nums_def)

lemma rmatch_caps_untouched:
  "rmatch rs inp s caps = Some (rest, caps') \<Longrightarrow> n \<notin> group_nums rs \<Longrightarrow> caps' n = caps n"
proof (induction rs inp s caps arbitrary: rest caps' rule: rmatch.induct)
  case (1 inp s caps)
  then show ?case by simp
next
  case (2 k inp s caps)
  then show ?case by (auto simp: group_nums_simps split: if_splits)
next
  case (3 k inp s caps)
  from "3.prems" have c: "s = [] \<or> s = [CHR 0x0A]" and m: "rmatch k inp s caps = Some (rest, caps')"
    by (auto split: if_splits)
  from "3.IH" [OF c m] "3.prems"(2) show ?case by (simp add: group_nums_simps)
next
  case (4 p lo hi greedy k inp s caps)
  from rmatch_ClsD [OF "4.prems"(1)] obtain m where
    m: "rmatch k inp (drop m s) caps = Some (rest, caps')" by blast
  from "4.IH" [OF m] "4.prems"(2) show ?case by (simp add: group_nums_simps)
next
  case (5 j rs k inp s caps)
  from "5.prems"(1) have "rmatch (rs @ Close j (length s) # k) inp s caps = Some (rest, caps')"
    by simp
  from "5.IH" [OF this] "5.prems"(2) show ?case by (simp add: group_nums_simps)
next
  case (6 j l k inp s caps)
  let ?caps = "caps(j \<mapsto> take (l - length s) (drop (length inp - l) inp))"
  from "6.prems"(1) have m: "rmatch k inp s ?caps = Some (rest, caps')"
    by simp
  from "6.prems"(2) have "n \<noteq> j" "n \<notin> group_nums k" by (simp_all add: group_nums_simps)
  with "6.IH" [OF m] show ?case by simp
next
  case (7 rs k inp s caps)
  show ?case
  proof (cases "rmatch (rs @ k) inp s caps")
    case None
    with "7.prems"(1) have "rmatch k inp s caps = Some (rest, caps')" by simp
    from "7.IH"(2) [OF None this] "7.prems"(2) show ?thesis by (simp add: group_nums_simps)
  next
    case (Some r)
    with "7.prems"(1) have "rmatch (rs @ k) inp s caps = Some (rest, caps')" by simp
    from "7.IH"(1) [OF this] "7.prems"(2) show ?thesis by (simp add: group_nums_simps)
  qed
qed

lemma needs_char_Cons:
  "needs_char (x # pre) \<Longrightarrow> (\<exists>q lo hi g. x = Cls q (Suc lo) hi g) \<or> needs_char pre"
  unfolding needs_char_def by (metis append_eq_Cons_conv list.inject)

lemma needs_char_appendI: "needs_char pre \<Longrightarrow> needs_char (xs @ pre)"
  unfolding needs_char_def by (metis append_assoc)

lemma needs_char_ConsI: "needs_char pre \<Longrightarrow> needs_char (x # pre)"
  using needs_char_appendI [of pre "[x]"] by simp

lemma needs_char_Cons_iff:
  "needs_char (x # pre) = ((\<exists>q lo hi g. x = Cls q (Suc lo) hi g) \<or> needs_char pre)"
proof
  assume "needs_char (x # pre)"
  then show "(\<exists>q lo hi g. x = Cls q (Suc lo) hi g) \<or> needs_char pre"
    by (rule needs_char_Cons)
next
  assume "(\<exists>q lo hi g. x = Cls q (Suc lo) hi g) \<or> needs_char pre"
  then show "needs_char (x # pre)"
  proof
    assume "\<exists>q lo hi g. x = Cls q (Suc lo) hi g"
    then obtain q lo hi g where "x # pre = [] @ Cls q (Suc lo) hi g # pre" by auto
    then show ?thesis unfolding needs_char_def by blast
  next
    assume "needs_char pre"
    then show ?thesis by (rule needs_char_ConsI)
  qed
qed

lemma needs_char_simps:
  "needs_char [] = False"
  "needs_char (Bos # k) = needs_char k"
  "needs_char (Eos # k) = needs_char k"
  "needs_char (Close n l # k) = needs_char k"
  "needs_char (Grp n rs # k) = needs_char k"
  "needs_char (Opt rs # k) = needs_char k"
  "needs_char (Cls p lo hi g # k) = (lo \<noteq> 0 \<or> needs_char k)"
proof -
  show "needs_char [] = False" by (simp add: needs_char_def)
  show "needs_char (Cls p lo hi g # k) = (lo \<noteq> 0 \<or> needs_char k)"
    by (cases lo) (simp_all add: needs_char_Cons_iff)
qed (simp_all add: needs_char_Cons_iff)

lemma rmatch_to_close:
  "rmatch rs inp s caps = Some (rest, caps') \<Longrightarrow> rs = pre @ Close n l # k \<Longrightarrow> n \<notin> group_nums k \<Longrightarrow>
     \<exists>c1 s'. s = c1 @ s' \<and> (\<forall>c \<in> set c1. admits pre c) \<and> (needs_char pre \<longrightarrow> c1 \<noteq> []) \<and>
        caps' n = Some (take (l - length s') (drop (length inp - l) inp))"
proof (induction rs inp s caps arbitrary: pre rule: rmatch.induct)
  case (1 inp s caps)
  then show ?case by simp
next
  case (2 k0 inp s caps)
  from "2.prems"(2) obtain pre' where p: "pre = Bos # pre'" "k0 = pre' @ Close n l # k"
    by (cases pre) auto
  from "2.prems"(1) have c: "length s = length inp" and m: "rmatch k0 inp s caps = Some (rest, caps')"
    by (auto split: if_splits)
  from "2.IH" [OF c m p(2) "2.prems"(3)] show ?case
    unfolding p(1) by (auto simp: admits_simps needs_char_simps)
next
  case (3 k0 inp s caps)
  from "3.prems"(2) obtain pre' where p: "pre = Eos # pre'" "k0 = pre' @ Close n l # k"
    by (cases pre) auto
  from "3.prems"(1) have c: "s = [] \<or> s = [CHR 0x0A]" and m: "rmatch k0 inp s caps = Some (rest, caps')"
    by (auto split: if_splits)
  from "3.IH" [OF c m p(2) "3.prems"(3)] show ?case
    unfolding p(1) by (auto simp: admits_simps needs_char_simps)
next
  case (4 p lo hi greedy k0 inp s caps)
  from "4.prems"(2) obtain pre' where p: "pre = Cls p lo hi greedy # pre'" "k0 = pre' @ Close n l # k"
    by (cases pre) auto
  from rmatch_ClsD [OF "4.prems"(1)] obtain m where
    n: "lo \<le> m" "m \<le> length (takeWhile p s)" and m: "rmatch k0 inp (drop m s) caps = Some (rest, caps')"
    by blast
  from "4.IH" [OF m p(2) "4.prems"(3)] obtain c1 s' where
    a: "drop m s = c1 @ s'" "\<forall>c \<in> set c1. admits pre' c" "needs_char pre' \<longrightarrow> c1 \<noteq> []"
      "caps' n = Some (take (l - length s') (drop (length inp - l) inp))"
    by blast
  have e: "s = (take m s @ c1) @ s'"
    using a(1) by (metis append_assoc append_take_drop_id)
  have b: "\<forall>c \<in> set (take m s @ c1). admits pre c"
    using take_takeWhile_all [OF n(2)] a(2) unfolding p(1) by (auto simp: admits_simps)
  have "take m s @ c1 \<noteq> []" if "needs_char pre"
  proof (cases "needs_char pre'")
    case True
    with a(3) show ?thesis by simp
  next
    case False
    with that have "lo \<noteq> 0" unfolding p(1) by (simp add: needs_char_simps)
    with n have "0 < m" "m \<le> length s"
      using length_takeWhile_le [of p s] by simp_all
    then show ?thesis by auto
  qed
  with e b a(4) show ?case by blast
next
  case (5 j rs k0 inp s caps)
  from "5.prems"(2) obtain pre' where p: "pre = Grp j rs # pre'" "k0 = pre' @ Close n l # k"
    by (cases pre) auto
  from "5.prems"(1) have m: "rmatch (rs @ Close j (length s) # k0) inp s caps = Some (rest, caps')"
    by simp
  have e: "rs @ Close j (length s) # k0 = (rs @ Close j (length s) # pre') @ Close n l # k"
    using p(2) by simp
  from "5.IH" [OF m e "5.prems"(3)] obtain c1 s' where
    a: "s = c1 @ s'" "\<forall>c \<in> set c1. admits (rs @ Close j (length s) # pre') c"
      "needs_char (rs @ Close j (length s) # pre') \<longrightarrow> c1 \<noteq> []"
      "caps' n = Some (take (l - length s') (drop (length inp - l) inp))"
    by blast
  have "needs_char (rs @ Close j (length s) # pre')" if "needs_char pre"
    using that unfolding p(1)
    by (auto simp: needs_char_simps intro: needs_char_appendI needs_char_ConsI)
  with a show ?case
    unfolding p(1) by (auto simp: admits_simps admits_append)
next
  case (6 j l' k0 inp s caps)
  let ?caps = "caps(j \<mapsto> take (l' - length s) (drop (length inp - l') inp))"
  from "6.prems"(1) have m: "rmatch k0 inp s ?caps = Some (rest, caps')"
    by simp
  show ?case
  proof (cases pre)
    case Nil
    with "6.prems"(2) have e: "j = n" "l' = l" "k0 = k" by simp_all
    from rmatch_caps_untouched [OF m [unfolded e] "6.prems"(3)]
    have "caps' n = Some (take (l - length s) (drop (length inp - l) inp))"
      by simp
    with Nil show ?thesis
      by (intro exI [of _ "[]"] exI [of _ s]) (simp add: needs_char_simps)
  next
    case (Cons x pre')
    with "6.prems"(2) have p: "pre = Close j l' # pre'" "k0 = pre' @ Close n l # k" by simp_all
    from "6.IH" [OF m p(2) "6.prems"(3)] show ?thesis
      unfolding p(1) by (auto simp: admits_simps needs_char_simps)
  qed
next
  case (7 rs k0 inp s caps)
  from "7.prems"(2) obtain pre' where p: "pre = Opt rs # pre'" "k0 = pre' @ Close n l # k"
    by (cases pre) auto
  show ?case
  proof (cases "rmatch (rs @ k0) inp s caps")
    case None
    with "7.prems"(1) have "rmatch k0 inp s caps = Some (rest, caps')" by simp
    from "7.IH"(2) [OF None this p(2) "7.prems"(3)] show ?thesis
      unfolding p(1) by (auto simp: admits_simps needs_char_simps)
  next
    case (Some r)
    with "7.prems"(1) have m: "rmatch (rs @ k0) inp s caps = Some (rest, caps')" by simp
    have e: "rs @ k0 = (rs @ pre') @ Close n l # k" using p(2) by simp
    from "7.IH"(1) [OF m e "7.prems"(3)] obtain c1 s' where
      a: "s = c1 @ s'" "\<forall>c \<in> set c1. admits (rs @ pre') c" "needs_char (rs @ pre') \<longrightarrow> c1 \<noteq> []"
        "caps' n = Some (take (l - length s') (drop (length inp - l) inp))"
      by blast
    have "needs_char (rs @ pre')" if "needs_char pre"
      using that unfolding p(1) by (auto simp: needs_char_simps intro: needs_char_appendI)
    with a show ?thesis
      unfolding p(1) by (auto simp: admits_simps admits_append)
  qed
qed

lemma rmatch_group:
  "rmatch rs inp s caps = Some (rest, caps') \<Longrightarrow> rs = pfx @ Grp n sub # k \<Longrightarrow> n \<notin> group_nums k \<Longrightarrow>
   \<exists>p. inp = p @ s \<Longrightarrow>
     \<exists>t. caps' n = Some t \<and> (\<forall>c \<in> set t. admits sub c) \<and> (needs_char sub \<longrightarrow> t \<noteq> [])"
proof (induction rs inp s caps arbitrary: pfx rule: rmatch.induct)
  case (1 inp s caps)
  then show ?case by simp
next
  case (2 k0 inp s caps)
  from "2.prems"(2) obtain pre' where p: "k0 = pre' @ Grp n sub # k"
    by (cases pfx) auto
  from "2.prems"(1) have c: "length s = length inp" and m: "rmatch k0 inp s caps = Some (rest, caps')"
    by (auto split: if_splits)
  from "2.IH" [OF c m p "2.prems"(3,4)] show ?case .
next
  case (3 k0 inp s caps)
  from "3.prems"(2) obtain pre' where p: "k0 = pre' @ Grp n sub # k"
    by (cases pfx) auto
  from "3.prems"(1) have c: "s = [] \<or> s = [CHR 0x0A]" and m: "rmatch k0 inp s caps = Some (rest, caps')"
    by (auto split: if_splits)
  from "3.IH" [OF c m p "3.prems"(3,4)] show ?case .
next
  case (4 p lo hi greedy k0 inp s caps)
  from "4.prems"(2) obtain pre' where p: "k0 = pre' @ Grp n sub # k"
    by (cases pfx) auto
  from rmatch_ClsD [OF "4.prems"(1)] obtain m where
    m: "rmatch k0 inp (drop m s) caps = Some (rest, caps')"
    by blast
  from "4.prems"(4) obtain q where "inp = q @ s" by blast
  then have "inp = (q @ take m s) @ drop m s" by simp
  then have "\<exists>q'. inp = q' @ drop m s" by blast
  from "4.IH" [OF m p "4.prems"(3) this] show ?case .
next
  case (5 j rs k0 inp s caps)
  from "5.prems"(1) have m: "rmatch (rs @ Close j (length s) # k0) inp s caps = Some (rest, caps')"
    by simp
  show ?case
  proof (cases pfx)
    case Nil
    with "5.prems"(2) have e: "j = n" "rs = sub" "k0 = k" by simp_all
    from rmatch_to_close [OF m [unfolded e] refl "5.prems"(3)] obtain c1 s' where
      a: "s = c1 @ s'" "\<forall>c \<in> set c1. admits sub c" "needs_char sub \<longrightarrow> c1 \<noteq> []"
        "caps' n = Some (take (length s - length s') (drop (length inp - length s) inp))"
      by blast
    from "5.prems"(4) obtain q where "inp = q @ s" by blast
    then have "drop (length inp - length s) inp = s" by simp
    with a(1,4) have "caps' n = Some c1" by simp
    with a(2,3) show ?thesis by blast
  next
    case (Cons x pre')
    with "5.prems"(2) have p: "k0 = pre' @ Grp n sub # k" by simp
    have e: "rs @ Close j (length s) # k0 = (rs @ Close j (length s) # pre') @ Grp n sub # k"
      using p by simp
    from "5.IH" [OF m e "5.prems"(3,4)] show ?thesis .
  qed
next
  case (6 j l k0 inp s caps)
  from "6.prems"(2) obtain pre' where p: "k0 = pre' @ Grp n sub # k"
    by (cases pfx) auto
  from "6.prems"(1) have
    m: "rmatch k0 inp s (caps(j \<mapsto> take (l - length s) (drop (length inp - l) inp))) = Some (rest, caps')"
    by simp
  from "6.IH" [OF m p "6.prems"(3,4)] show ?case .
next
  case (7 rs k0 inp s caps)
  from "7.prems"(2) obtain pre' where p: "k0 = pre' @ Grp n sub # k"
    by (cases pfx) auto
  show ?case
  proof (cases "rmatch (rs @ k0) inp s caps")
    case None
    with "7.prems"(1) have "rmatch k0 inp s caps = Some (rest, caps')" by simp
    from "7.IH"(2) [OF None this p "7.prems"(3,4)] show ?thesis .
  next
    case (Some r)
    with "7.prems"(1) have m: "rmatch (rs @ k0) inp s caps = Some (rest, caps')" by simp
    have e: "rs @ k0 = (rs @ pre') @ Grp n sub # k" using p by simp
    from "7.IH"(1) [OF m e "7.prems"(3,4)] show ?thesis .
  qed
qed

lemma re_match_group:
  assumes "re_match rs s = Some g" "rs = pfx @ Grp n sub # k" "n \<notin> group_nums k"
  shows "\<exists>t. g n = Some t \<and> (\<forall>c \<in> set t. admits sub c) \<and> (needs_char sub \<longrightarrow> t \<noteq> [])"
proof -
  from assms(1) obtain rest where m: "rmatch rs s s Map.empty = Some (rest, g)"
    by (auto simp: re_match_def)
  have "\<exists>p. s = p @ s" by simp
  from rmatch_group [OF m assms(2,3) this] show ?thesis .
qed

section \<open>The line body and the program\<close>

lemma join_segments: "join_colon (segments s) = s"
proof (induction s)
  case Nil
  then show ?case by simp
next
  case (Cons c cs)
  obtain x xs where sx: "segments cs = x # xs" by (cases "segments cs") simp_all
  show ?case
  proof (cases "c = CHR '':''")
    case True
    with Cons sx show ?thesis by (simp add: segments_Cons)
  next
    case False
    with Cons sx show ?thesis by (cases xs) (simp_all add: segments_Cons)
  qed
qed

lemma drop_empty_tail_id: "xs = [] \<or> last xs \<noteq> [] \<Longrightarrow> drop_empty_tail xs = xs"
  by (auto simp: drop_empty_tail_def)

lemma split_of_trimmed_segments:
  assumes "\<forall>seg \<in> set (segments body). strip seg = seg"
    and "body = [] \<or> last (segments body) \<noteq> []"
  shows "join_colon (split_colon_statements body) = body"
proof (cases "body = []")
  case True
  then show ?thesis by (simp add: split_colon_statements_def)
next
  case False
  from assms(1) have m: "map strip (segments body) = segments body"
    by (simp add: map_idI)
  from assms(2) False have "drop_empty_tail (segments body) = segments body"
    by (simp add: drop_empty_tail_id)
  with m show ?thesis
    by (simp add: split_colon_statements_segments join_segments)
qed

lemma split_parts_trimmed: "s \<in> set (split_colon_statements body) \<Longrightarrow> strip s = s"
proof -
  assume "s \<in> set (split_colon_statements body)"
  then have "s \<in> set (map strip (segments body))"
    by (auto simp: split_colon_statements_segments drop_empty_tail_def dest: in_set_butlastD
        split: if_splits)
  then show ?thesis by (auto simp: strip_idem)
qed

lemma scale_stmt_None: "scale_stmt None vars s = strip s"
  by (simp add: scale_stmt_def)

lemma rewrite_stmt_noop:
  "poke_stmt bv w s = None \<Longrightarrow> rewrite_stmt bv w ''none'' False s = [s]"
  by (simp add: rewrite_stmt_def map_chr_calls_to_profile_def)

lemma process_line_body_noop:
  assumes "\<forall>s \<in> set (split_colon_statements body). poke_stmt bv False s = None"
  shows "process_line_body body bv False None vars ''none'' False
         = join_colon (split_colon_statements body)"
proof -
  have a: "map (scale_stmt None vars) (split_colon_statements body) = split_colon_statements body"
    by (rule map_idI) (simp add: scale_stmt_None split_parts_trimmed)
  have b: "map (rewrite_stmt bv False ''none'' False) (split_colon_statements body)
           = map (\<lambda>s. [s]) (split_colon_statements body)"
    using assms by (simp add: rewrite_stmt_noop)
  have c: "concat (map (\<lambda>s. [s]) xs) = xs" for xs :: "string list"
    by (induction xs) simp_all
  show ?thesis
    unfolding process_line_body_def Let_def by (simp only: a b c)
qed

lemma main_length: "length (main a lines) = Suc (length lines)"
  by (simp add: main_def Let_def)

lemma main_hd: "hd (main a lines) = header_line a (map parse_line lines)"
  by (simp add: main_def Let_def)

lemma main_nth:
  "i < length lines \<Longrightarrow>
   main a lines ! Suc i = out_line a (collect_base_vars (map parse_line lines)) (parse_line (lines ! i))"
  by (simp add: main_def Let_def)

lemma map_filter_none: "\<forall>x \<in> set xs. f x = None \<Longrightarrow> List.map_filter f xs = []"
  by (induction xs) (simp_all add: List.map_filter_simps)

lemma map_filter_app: "List.map_filter f (xs @ ys) = List.map_filter f xs @ List.map_filter f ys"
  by (simp add: List.map_filter_def)

lemma first_line_num_found:
  assumes "\<forall>x \<in> set pre. fst (parse_line x) = None" and "fst (parse_line l) = Some n"
  shows "first_line_num (map parse_line (pre @ l # post)) = Some n"
proof -
  have "List.map_filter fst (map parse_line pre) = []"
    using assms(1) by (intro map_filter_none) auto
  then show ?thesis using assms(2)
    by (simp add: first_line_num_def map_filter_app List.map_filter_simps)
qed

lemma first_line_num_none:
  assumes "\<forall>x \<in> set lines. fst (parse_line x) = None"
  shows "first_line_num (map parse_line lines) = None"
proof -
  have "List.map_filter fst (map parse_line lines) = []"
    using assms by (intro map_filter_none) auto
  then show ?thesis by (simp add: first_line_num_def)
qed

lemma parse_line_unnumbered:
  "fst (parse_line raw) = None \<Longrightarrow> snd (parse_line raw) = rstrip raw"
  by (auto simp: parse_line_def split: option.splits prod.splits)

lemma main_unnumbered:
  assumes "i < length lines" and "fst (parse_line (lines ! i)) = None"
  shows "main a lines ! Suc i = rstrip (lines ! i)"
  using assms by (simp add: main_nth out_line_def parse_line_unnumbered)

section \<open>Statements that the patterns match\<close>

lemma ic_not_space:
  "is_space c \<Longrightarrow> \<not> ic CHR ''P'' c" "is_space c \<Longrightarrow> \<not> ic CHR ''F'' c"
  "is_space c \<Longrightarrow> \<not> ic CHR ''G'' c"
  by (auto simp: ic_simps is_space_def)

lemma rmatch_lead:
  assumes "rmatch (Bos # star is_space # one q # k) s s caps = Some r"
    and "\<And>c. is_space c \<Longrightarrow> \<not> q c"
  shows "\<exists>c t. lstrip s = c # t \<and> q c \<and> rmatch k s t caps = Some r"
proof -
  have "rmatch (one q # k) s (c # t) caps = None" if "is_space c" for c t
    using that assms(2) by (simp add: rmatch_one)
  from rmatch_skip [of is_space "one q # k" s caps 0 True s, OF this] assms(1)
  have "rmatch (one q # k) s (lstrip s) caps = Some r"
    by (simp add: star_def lstrip_def)
  then show ?thesis
    by (cases "lstrip s") (auto simp: rmatch_one split: if_splits)
qed

lemma re_match_lead:
  assumes "re_match (Bos # star is_space # one q # k) s = Some g"
    and "\<And>c. is_space c \<Longrightarrow> \<not> q c"
  shows "\<exists>c t. lstrip s = c # t \<and> q c"
proof -
  from assms(1) obtain rest where "rmatch (Bos # star is_space # one q # k) s s Map.empty = Some (rest, g)"
    by (auto simp: re_match_def)
  from rmatch_lead [OF this assms(2)] show ?thesis by blast
qed

lemma POKE_lead: "re_match POKE_STMT_RE s = Some g \<Longrightarrow> \<exists>c t. lstrip s = c # t \<and> ic CHR ''P'' c"
  by (rule re_match_lead [where k = "tl (tl (tl POKE_STMT_RE))"])
     (simp_all add: POKE_STMT_RE_def word_ic_def ic_not_space)

lemma FOR_lead: "re_match FOR_RE s = Some g \<Longrightarrow> \<exists>c t. lstrip s = c # t \<and> ic CHR ''F'' c"
  by (rule re_match_lead [where k = "tl (tl (tl FOR_RE))"])
     (simp_all add: FOR_RE_def word_ic_def ic_not_space)

lemma GET_lead: "re_match GET_RE s = Some g \<Longrightarrow> \<exists>c t. lstrip s = c # t \<and> ic CHR ''G'' c"
  by (rule re_match_lead [where k = "tl (tl (tl GET_RE))"])
     (simp_all add: GET_RE_def word_ic_def ic_not_space)

lemma groups12_SomeD: "groups12 m = Some ab \<Longrightarrow> \<exists>g. m = Some g"
  by (auto simp: groups12_def split: option.splits)

lemma group1_SomeD: "group1 m = Some a \<Longrightarrow> \<exists>g. m = Some g"
  by (auto simp: group1_def split: option.splits)

lemma POKE_not_FOR:
  assumes "groups12 (re_match POKE_STMT_RE s) = Some p"
  shows "groups12 (re_match FOR_RE s) = None"
proof (cases "groups12 (re_match FOR_RE s)")
  case None
  then show ?thesis .
next
  case (Some a)
  from groups12_SomeD [OF assms] POKE_lead obtain c t where "lstrip s = c # t" "ic CHR ''P'' c"
    by blast
  moreover from groups12_SomeD [OF Some] FOR_lead obtain c' t' where "lstrip s = c' # t'" "ic CHR ''F'' c'"
    by blast
  ultimately show ?thesis by (auto simp: ic_simps)
qed

lemma POKE_not_GET:
  assumes "groups12 (re_match POKE_STMT_RE s) = Some p"
  shows "group1 (re_match GET_RE s) = None"
proof (cases "group1 (re_match GET_RE s)")
  case None
  then show ?thesis .
next
  case (Some a)
  from groups12_SomeD [OF assms] POKE_lead obtain c t where "lstrip s = c # t" "ic CHR ''P'' c"
    by blast
  moreover from group1_SomeD [OF Some] GET_lead obtain c' t' where "lstrip s = c' # t'" "ic CHR ''G'' c'"
    by blast
  ultimately show ?thesis by (auto simp: ic_simps)
qed

lemma scale_stmt_not_FOR:
  "groups12 (re_match FOR_RE (strip s)) = None \<Longrightarrow> scale_stmt sf vars s = strip s"
  by (simp add: scale_stmt_def Let_def split: option.splits)

lemma poke_pipeline:
  assumes "groups12 (re_match POKE_STMT_RE (strip s)) = Some (addr, val)"
  shows "rewrite_stmt base_vars warn profile map_get (scale_stmt sf vars s) =
           (case rewrite_poke addr val base_vars warn of
              None \<Rightarrow> [map_chr_calls_to_profile (strip s) profile]
            | Some (out_reg, out_dat) \<Rightarrow> [out_reg, out_dat])"
proof -
  have s: "scale_stmt sf vars s = strip s"
    using POKE_not_FOR [OF assms] by (rule scale_stmt_not_FOR)
  have g: "group1 (re_match GET_RE (strip s)) = None"
    using POKE_not_GET [OF assms] .
  show ?thesis
    by (auto simp: s rewrite_stmt_def g poke_stmt_def assms rewrite_poke_def Let_def
        split: option.splits)
qed

lemma py_int_empty: "py_int [] = None"
  by (simp add: py_int_def)

lemma rewrite_poke_literal:
  assumes "filter (\<lambda>c. \<not> is_space c) (strip addr) = ''54272+'' @ off"
  shows "rewrite_poke addr val base_vars warn =
           Some (''OUT REG,'' @ off, ''OUT DAT,'' @ strip val @ range_rem warn off)"
  using assms by (simp add: rewrite_poke_def Let_def offset_expr_def startswith_def)

lemma CHR_CALL_needs_dollar:
  assumes "rmatch CHR_CALL_RE inp s caps = Some r"
  shows "CHR ''$'' \<in> set s"
proof -
  have "\<exists>c \<in> set s. ic CHR ''$'' c"
    by (rule rmatch_required [OF assms, where pre = "word_ic ''CHR''" and lo = 0])
       (simp_all add: CHR_CALL_RE_def one_def word_ic_def)
  then show ?thesis by (simp add: ic_simps)
qed

lemma chr_sub_id: "CHR ''$'' \<notin> set s \<Longrightarrow> chr_sub s = s"
proof (induction s)
  case Nil
  then show ?case by simp
next
  case (Cons c cs)
  have "rmatch CHR_CALL_RE (c # cs) (c # cs) Map.empty = None"
  proof (cases "rmatch CHR_CALL_RE (c # cs) (c # cs) Map.empty")
    case None
    then show ?thesis .
  next
    case (Some r)
    from CHR_CALL_needs_dollar [OF this] Cons.prems show ?thesis by simp
  qed
  with Cons show ?case by simp
qed

lemma map_chr_id:
  "profile \<noteq> ''ansi'' \<or> CHR ''$'' \<notin> set s \<Longrightarrow> map_chr_calls_to_profile s profile = s"
  by (auto simp: map_chr_calls_to_profile_def chr_sub_id)




lemma rewrite_poke_SomeD:
  assumes "rewrite_poke arg_addr arg_val bv warn = Some (out_reg, out_dat)"
  shows "\<exists>off. offset_expr (filter (\<lambda>c. \<not> is_space c) (strip arg_addr)) bv = Some off \<and>
           out_reg = ''OUT REG,'' @ off \<and>
           out_dat = ''OUT DAT,'' @ strip arg_val @ range_rem warn off"
proof (cases "offset_expr (filter (\<lambda>c. \<not> is_space c) (strip arg_addr)) bv")
  case None
  with assms show ?thesis by (simp add: rewrite_poke_def Let_def)
next
  case (Some off)
  with assms have "out_reg = ''OUT REG,'' @ off \<and>
           out_dat = ''OUT DAT,'' @ strip arg_val @ range_rem warn off"
    by (simp add: rewrite_poke_def Let_def)
  with Some show ?thesis by blast
qed







lemma rmatch_opt1:
  "rmatch (opt1 q # k) inp s caps =
     (case s of
        [] \<Rightarrow> rmatch k inp [] caps
      | c # t \<Rightarrow>
          if q c then (case rmatch k inp t caps of Some r \<Rightarrow> Some r | None \<Rightarrow> rmatch k inp s caps)
          else rmatch k inp s caps)"
  by (cases s) (simp_all add: opt1_def reps_def split: option.splits)

lemma rmatch_plus_Nil: "rmatch (plus q # k) inp [] caps = None"
  by (simp add: plus_def reps_def)

lemma not_alnum_plus: "\<not> is_alnum CHR ''+''"
  by (simp add: is_alnum_def is_alpha_def is_digit_def)

lemma alnum_not_plus: "is_alnum d \<Longrightarrow> d \<noteq> CHR ''+''"
  using not_alnum_plus by blast

lemma alias_plus_no_match:
  assumes "alias_token a"
  shows "alias_match (a @ ''+'') = None"
proof -
  from assms consider c where "a = [c]" "is_alpha c" | c d where "a = [c, d]" "is_alpha c" "is_alnum d"
    by (auto simp: alias_token_def split: list.splits)
  then have "re_match ALIAS_RE (a @ ''+'') = None"
  proof cases
    case 1
    then show ?thesis
      by (simp add: re_match_def ALIAS_RE_def rmatch_one rmatch_opt1 rmatch_plus_Nil ic_simps
          not_alnum_plus)
  next
    case 2
    then show ?thesis
      by (simp add: re_match_def ALIAS_RE_def rmatch_one rmatch_opt1 rmatch_plus_Nil ic_simps
          not_alnum_plus alnum_not_plus)
  qed
  then show ?thesis by (simp add: alias_match_def)
qed

lemma offset_expr_alias_plus:
  assumes "alias_token a"
  shows "offset_expr (a @ ''+'') bv = None"
proof -
  from assms have "length a \<le> 2"
    by (auto simp: alias_token_def split: list.splits)
  then have "\<not> startswith (a @ ''+'') ''54272+''" "a @ ''+'' \<noteq> ''54272''"
    by (auto simp: startswith_def)
  then show ?thesis
    by (simp add: offset_expr_def alias_plus_no_match [OF assms])
qed

lemma rewrite_poke_alias_plus:
  assumes "alias_token a" "filter (\<lambda>c. \<not> is_space c) (strip addr) = a @ ''+''"
  shows "rewrite_poke addr val bv warn = None"
  using assms by (simp add: rewrite_poke_def Let_def offset_expr_alias_plus)

lemma rewrite_poke_bare_plus:
  assumes "filter (\<lambda>c. \<not> is_space c) (strip addr) = ''54272+''"
  shows "rewrite_poke addr val bv warn = Some (''OUT REG,'', ''OUT DAT,'' @ strip val)"
  using rewrite_poke_literal [of addr "[]" val bv warn] assms
  by (simp add: range_rem_def py_int_empty)

lemma re_match_chars:
  assumes "re_match rs s = Some g" "rs \<noteq> []" "last rs = Eos"
  shows "\<forall>c \<in> set s. admits rs c \<or> c = CHR 0x0A"
proof -
  from assms(1) obtain rest where m: "rmatch rs s s Map.empty = Some (rest, g)"
    by (auto simp: re_match_def)
  from rmatch_consumed [OF m] obtain pre where p: "s = pre @ rest" "\<forall>c \<in> set pre. admits rs c"
    by blast
  from rmatch_Eos_rest [OF m assms(2,3)] have "rest = [] \<or> rest = [CHR 0x0A]" .
  with p show ?thesis by auto
qed

lemma re_match_required:
  assumes "re_match rs s = Some g" "rs = pre @ Cls q (Suc lo) hi gr # k"
  shows "\<exists>c \<in> set s. q c"
proof -
  from assms(1) obtain rest where m: "rmatch rs s s Map.empty = Some (rest, g)"
    by (auto simp: re_match_def)
  from rmatch_required [OF m assms(2)] show ?thesis .
qed

lemma admits_ASSIGN:
  "admits ASSIGN_BASE_RE c = (is_space c \<or> is_alnum c \<or> c = CHR ''='')"
  by (auto simp: ASSIGN_BASE_RE_def admits_simps admits_append word_ic_def one_def star_def plus_def
      opt1_def ic_simps is_alnum_def is_alpha_def is_digit_def)

lemma admits_GET:
  "admits GET_RE c = (is_space c \<or> is_alnum c \<or> c = CHR ''$'')"
  by (auto simp: GET_RE_def admits_simps admits_append word_ic_def one_def star_def plus_def
      opt1_def ic_simps is_alnum_def is_alpha_def is_digit_def)

lemma is_space_newline: "is_space (CHR 0x0A)"
  by (simp add: is_space_def)

lemma ASSIGN_chars:
  assumes "re_match ASSIGN_BASE_RE s = Some g"
  shows "\<forall>c \<in> set s. is_space c \<or> is_alnum c \<or> c = CHR ''=''"
proof -
  have "\<forall>c \<in> set s. admits ASSIGN_BASE_RE c \<or> c = CHR 0x0A"
    by (rule re_match_chars [OF assms]) (simp_all add: ASSIGN_BASE_RE_def)
  then show ?thesis using is_space_newline by (auto simp: admits_ASSIGN)
qed

lemma GET_chars:
  assumes "re_match GET_RE s = Some g"
  shows "\<forall>c \<in> set s. is_space c \<or> is_alnum c \<or> c = CHR ''$''"
proof -
  have "\<forall>c \<in> set s. admits GET_RE c \<or> c = CHR 0x0A"
    by (rule re_match_chars [OF assms]) (simp_all add: GET_RE_def)
  then show ?thesis using is_space_newline by (auto simp: admits_GET)
qed

lemma ASSIGN_has_eq:
  assumes "re_match ASSIGN_BASE_RE s = Some g"
  shows "CHR ''='' \<in> set s"
proof -
  have "\<exists>c \<in> set s. ic CHR ''='' c"
    by (rule re_match_required [OF assms, where lo = 0 and
          pre = "[Bos, star is_space, Opt (word_ic ''LET'' @ [plus is_space]),
                  Grp 1 [one is_alpha, opt1 is_alnum], star is_space]"])
       (simp add: ASSIGN_BASE_RE_def one_def)
  then show ?thesis by (simp add: ic_simps)
qed

lemma POKE_has_comma:
  assumes "re_match POKE_STMT_RE s = Some g"
  shows "CHR '','' \<in> set s"
proof -
  have "\<exists>c \<in> set s. ic CHR '','' c"
    by (rule re_match_required [OF assms, where lo = 0 and
          pre = "[Bos, star is_space] @ word_ic ''POKE'' @
                 [plus is_space, Grp 1 [plus_lazy dot], star is_space]"])
       (simp add: POKE_STMT_RE_def one_def)
  then show ?thesis by (simp add: ic_simps)
qed

lemma special_chars:
  "\<not> is_space CHR '',''" "\<not> is_alnum CHR '',''"
  "\<not> is_space CHR ''$''" "\<not> is_alnum CHR ''$''"
  "\<not> is_space CHR '':''" "\<not> is_alnum CHR '':''"
  "\<not> is_space CHR ''=''" "\<not> is_alnum CHR ''=''"
  by (simp_all add: is_space_def is_alnum_def is_alpha_def is_digit_def)

lemma ASSIGN_no_special:
  assumes "re_match ASSIGN_BASE_RE s = Some g"
  shows "CHR '','' \<notin> set s" "CHR ''$'' \<notin> set s" "CHR '':'' \<notin> set s"
  using ASSIGN_chars [OF assms] special_chars by auto

lemma ASSIGN_not_POKE:
  assumes "re_match ASSIGN_BASE_RE s = Some g"
  shows "re_match POKE_STMT_RE s = None"
  using ASSIGN_no_special(1) [OF assms] POKE_has_comma [of s]
  by (cases "re_match POKE_STMT_RE s") auto

lemma ASSIGN_not_GET:
  assumes "re_match ASSIGN_BASE_RE s = Some g"
  shows "re_match GET_RE s = None"
proof (cases "re_match GET_RE s")
  case None
  then show ?thesis .
next
  case (Some g')
  from GET_chars [OF Some] ASSIGN_has_eq [OF assms] special_chars show ?thesis by auto
qed

lemma space_not_class:
  "is_space c \<Longrightarrow> \<not> is_alpha c" "is_space c \<Longrightarrow> \<not> ic CHR ''L'' c" "is_space c \<Longrightarrow> \<not> ic CHR ''='' c"
  by (auto simp: is_space_def is_alpha_def ic_simps)

lemma FOR_shape:
  assumes "re_match FOR_RE s = Some g"
  shows "\<exists>f o' r w t. lstrip s = f # o' # r # w # t \<and> ic CHR ''F'' f \<and> ic CHR ''O'' o' \<and> ic CHR ''R'' r
           \<and> is_space w"
proof -
  let ?k = "[plus is_space, Grp 1 [one is_alpha, opt1 is_alnum], star is_space, one (ic CHR ''=''),
      star is_space, one (ic CHR ''1''), plus is_space] @ word_ic ''TO'' @
     [star is_space, Grp 2 [plus is_digit], star is_space, Eos]"
  from assms obtain rest where
    m: "rmatch (Bos # star is_space # one (ic CHR ''F'') # one (ic CHR ''O'') # one (ic CHR ''R'') # ?k)
          s s Map.empty = Some (rest, g)"
    by (auto simp: re_match_def FOR_RE_def word_ic_def)
  from rmatch_lead [OF m] ic_not_space(2) obtain f t1 where
    a: "lstrip s = f # t1" "ic CHR ''F'' f"
    and m1: "rmatch (one (ic CHR ''O'') # one (ic CHR ''R'') # ?k) s t1 Map.empty = Some (rest, g)"
    by blast
  from m1 obtain o' r t2 where
    b: "t1 = o' # r # t2" "ic CHR ''O'' o'" "ic CHR ''R'' r"
    and m2: "rmatch ?k s t2 Map.empty = Some (rest, g)"
    by (auto simp: rmatch_one split: list.splits if_splits)
  from m2 have "rmatch (Cls is_space 1 None True # tl ?k) s t2 Map.empty = Some (rest, g)"
    by (simp add: plus_def)
  from rmatch_ClsD [OF this] obtain n where "1 \<le> n" "n \<le> length (takeWhile is_space t2)"
    by blast
  then obtain w t3 where "takeWhile is_space t2 = w # t3"
    by (cases "takeWhile is_space t2") auto
  then obtain t where "t2 = w # t" "is_space w"
    by (cases t2) (auto split: if_splits)
  with a b show ?thesis by blast
qed

lemma ASSIGN_not_FOR:
  assumes "re_match FOR_RE s = Some g"
  shows "re_match ASSIGN_BASE_RE s = None"
proof -
  from FOR_shape [OF assms] obtain f o' r w t where
    l: "lstrip s = f # o' # r # w # t" and c: "ic CHR ''F'' f" "ic CHR ''O'' o'" "ic CHR ''R'' r" "is_space w"
    by blast
  let ?tail = "[star is_space, one (ic CHR ''=''), star is_space] @ word_ic ''54272'' @ [star is_space, Eos]"
  let ?K = "Opt (word_ic ''LET'' @ [plus is_space]) # Grp 1 [one is_alpha, opt1 is_alnum] # ?tail"
  have K: "ASSIGN_BASE_RE = Bos # Cls is_space 0 None True # ?K"
    by (simp add: ASSIGN_BASE_RE_def star_def)
  have skip: "rmatch ?K s (c # u) Map.empty = None" if "is_space c" for c u
    using that by (simp add: word_ic_def rmatch_one space_not_class)
  have eq: "rmatch (star is_space # one (ic CHR ''='') # k) s (x # u) cp = None"
    if "\<not> is_space x" "x \<noteq> CHR ''=''" for k x u cp
  proof -
    have "rmatch (one (ic CHR ''='') # k) s (c # v) cp = None" if "is_space c" for c v
      using that by (simp add: rmatch_one space_not_class)
    from rmatch_skip [of is_space "one (ic CHR ''='') # k" s cp 0 True "x # u", OF this]
    show ?thesis using that by (simp add: star_def rmatch_one ic_simps)
  qed
  have ns: "\<not> is_space o'" "\<not> is_space r" "o' \<noteq> CHR ''=''" "r \<noteq> CHR ''=''" "\<not> ic CHR ''L'' f"
    using c by (auto simp: ic_simps is_space_def)
  have none: "rmatch ?K s (f # o' # r # w # t) Map.empty = None"
    using ns by (simp add: word_ic_def rmatch_one rmatch_opt1 eq)
  have "rmatch (Cls is_space 0 None True # ?K) s s Map.empty =
          (if 0 \<le> length (takeWhile is_space s)
           then rmatch ?K s (dropWhile is_space s) Map.empty else None)"
    by (rule rmatch_skip) (rule skip)
  also have "\<dots> = rmatch ?K s (lstrip s) Map.empty"
    by (simp only: le0 if_True lstrip_def)
  also have "\<dots> = None"
    unfolding l by (fact none)
  finally have "rmatch (Bos # Cls is_space 0 None True # ?K) s s Map.empty = None"
    by (simp only: rmatch.simps(2) simp_thms if_True)
  then show ?thesis
    unfolding re_match_def K by simp
qed

lemma ASSIGN_pipeline:
  assumes "group1 (re_match ASSIGN_BASE_RE s) = Some v" "strip s = s"
  shows "rewrite_stmt bv warn profile map_get (scale_stmt sf vars s) = [s]"
proof -
  from group1_SomeD [OF assms(1)] obtain g where g: "re_match ASSIGN_BASE_RE s = Some g"
    by blast
  have "re_match FOR_RE s = None"
    using ASSIGN_not_FOR [of s] g by (cases "re_match FOR_RE s") auto
  then have sc: "scale_stmt sf vars s = s"
    using scale_stmt_not_FOR [of s sf vars] assms(2) by (simp add: groups12_def)
  have "map_chr_calls_to_profile s profile = s"
    using ASSIGN_no_special(2) [OF g] by (simp add: map_chr_id)
  then show ?thesis
    by (simp add: sc rewrite_stmt_def poke_stmt_def ASSIGN_not_POKE [OF g] ASSIGN_not_GET [OF g]
        groups12_def group1_def)
qed

section \<open>The groups that the converter reads\<close>

lemma digits_group:
  "admits [plus is_digit] c = is_digit c" "needs_char [plus is_digit]"
  by (simp_all add: plus_def admits_simps needs_char_simps)

lemma name_group:
  "admits [one is_alpha, opt1 is_alnum] c = is_alnum c" "needs_char [one is_alpha, opt1 is_alnum]"
  by (auto simp: one_def opt1_def admits_simps needs_char_simps is_alnum_def)

lemma FOR_groups:
  assumes "groups12 (re_match FOR_RE s) = Some (var, bound)"
  shows "var \<noteq> [] \<and> (\<forall>c \<in> set var. is_alnum c) \<and> bound \<noteq> [] \<and> (\<forall>c \<in> set bound. is_digit c)"
proof -
  from assms obtain g where g: "re_match FOR_RE s = Some g" "g 1 = Some var" "g 2 = Some bound"
    by (auto simp: groups12_def split: option.splits)
  have "\<exists>t. g 1 = Some t \<and> (\<forall>c \<in> set t. admits [one is_alpha, opt1 is_alnum] c)
          \<and> (needs_char [one is_alpha, opt1 is_alnum] \<longrightarrow> t \<noteq> [])"
    by (rule re_match_group [OF g(1), where pfx = "[Bos, star is_space] @ word_ic ''FOR'' @ [plus is_space]"])
       (simp add: FOR_RE_def group_nums_simps word_ic_def one_def star_def plus_def, simp add: FOR_RE_def group_nums_simps word_ic_def one_def star_def plus_def)
  moreover have "\<exists>t. g 2 = Some t \<and> (\<forall>c \<in> set t. admits [plus is_digit] c)
          \<and> (needs_char [plus is_digit] \<longrightarrow> t \<noteq> [])"
    by (rule re_match_group [OF g(1), where pfx = "[Bos, star is_space] @ word_ic ''FOR'' @
         [plus is_space, Grp 1 [one is_alpha, opt1 is_alnum], star is_space, one (ic CHR ''=''),
          star is_space, one (ic CHR ''1''), plus is_space] @ word_ic ''TO'' @ [star is_space]"])
       (simp add: FOR_RE_def group_nums_simps star_def, simp add: FOR_RE_def group_nums_simps star_def)
  ultimately show ?thesis
    using g(2,3) by (simp add: digits_group name_group)
qed

lemma LINE_NUM_group:
  assumes "groups12 (re_match LINE_NUM_RE raw) = Some (ln, body)"
  shows "ln \<noteq> [] \<and> (\<forall>c \<in> set ln. is_digit c)"
proof -
  from assms obtain g where g: "re_match LINE_NUM_RE raw = Some g" "g 1 = Some ln"
    by (auto simp: groups12_def split: option.splits)
  have "\<exists>t. g 1 = Some t \<and> (\<forall>c \<in> set t. admits [plus is_digit] c)
          \<and> (needs_char [plus is_digit] \<longrightarrow> t \<noteq> [])"
    by (rule re_match_group [OF g(1), where pfx = "[Bos, star is_space]"])
       (simp add: LINE_NUM_RE_def group_nums_simps star_def, simp add: LINE_NUM_RE_def group_nums_simps star_def)
  then show ?thesis
    using g(2) by (simp add: digits_group)
qed

lemma CHR_CALL_group:
  assumes "rmatch CHR_CALL_RE x x Map.empty = Some (rest, g)"
  shows "\<exists>t. g 1 = Some t \<and> t \<noteq> [] \<and> (\<forall>c \<in> set t. is_digit c)"
proof -
  have sfx: "\<exists>p. x = p @ x" by simp
  have "\<exists>t. g 1 = Some t \<and> (\<forall>c \<in> set t. admits [plus is_digit] c)
          \<and> (needs_char [plus is_digit] \<longrightarrow> t \<noteq> [])"
    by (rule rmatch_group [OF assms _ _ sfx, where pfx = "word_ic ''CHR'' @
          [one (ic CHR ''$''), one (ic CHR ''(''), star is_space]"])
       (simp add: CHR_CALL_RE_def group_nums_simps star_def one_def, simp add: CHR_CALL_RE_def group_nums_simps star_def one_def)
  then show ?thesis
    by (auto simp: digits_group)
qed

lemma ASSIGN_group:
  assumes "group1 (re_match ASSIGN_BASE_RE s) = Some v"
  shows "v \<noteq> [] \<and> (\<forall>c \<in> set v. is_alnum c)"
proof -
  from assms obtain g where g: "re_match ASSIGN_BASE_RE s = Some g" "g 1 = Some v"
    by (auto simp: group1_def split: option.splits)
  have "\<exists>t. g 1 = Some t \<and> (\<forall>c \<in> set t. admits [one is_alpha, opt1 is_alnum] c)
          \<and> (needs_char [one is_alpha, opt1 is_alnum] \<longrightarrow> t \<noteq> [])"
    by (rule re_match_group [OF g(1), where
          pfx = "[Bos, star is_space, Opt (word_ic ''LET'' @ [plus is_space])]"])
       (simp add: ASSIGN_BASE_RE_def group_nums_simps word_ic_def one_def star_def, simp add: ASSIGN_BASE_RE_def group_nums_simps word_ic_def one_def star_def)
  then show ?thesis
    using g(2) by (simp add: name_group)
qed

lemma int_digits_all:
  "\<forall>c \<in> set cs. is_digit c \<Longrightarrow> int_digits acc cs = Some (foldl (\<lambda>a c. a * 10 + digit_val c) acc cs)"
  by (induction cs arbitrary: acc) simp_all

lemma digit_not_sign:
  "is_digit c \<Longrightarrow> c \<noteq> CHR ''-'' \<and> c \<noteq> CHR ''+'' \<and> \<not> is_int_space c"
  by (auto simp: is_digit_def is_int_space_def)

lemma py_int_digits:
  assumes "ds \<noteq> []" "\<forall>c \<in> set ds. is_digit c"
  shows "py_int ds = Some (int (nat_of_digits ds))"
proof -
  from assms obtain c cs where ds: "ds = c # cs" by (cases ds) auto
  with assms(2) have c: "is_digit c" and cs: "\<forall>x \<in> set cs. is_digit x" by simp_all
  have l: "dropWhile is_int_space ds = ds"
    using c digit_not_sign [of c] by (simp add: ds)
  have "\<not> is_int_space (last ds)"
    using assms digit_not_sign [of "last ds"] last_in_set by blast
  then have "dropWhile is_int_space (rev ds) = rev ds"
    using assms(1) by (cases ds rule: rev_cases) simp_all
  then have "rev (dropWhile is_int_space (rev (dropWhile is_int_space ds))) = ds"
    by (simp only: l rev_rev_ident)
  then have t: "rev (dropWhile is_int_space (rev (dropWhile is_int_space ds))) = c # cs"
    by (simp only: ds)
  have b: "int_body (c # cs) = Some (nat_of_digits (c # cs))"
    using c int_digits_all [OF cs] by (simp add: int_body_def nat_of_digits_def)
  show ?thesis
    unfolding py_int_def t Let_def using digit_not_sign [OF c] b
    by (simp add: ds)
qed

lemma FOR_bound_int:
  "groups12 (re_match FOR_RE s) = Some (var, bound) \<Longrightarrow> py_int bound = Some (int (nat_of_digits bound))"
  using FOR_groups [of s var bound] by (simp add: py_int_digits)

lemma LINE_NUM_int:
  "groups12 (re_match LINE_NUM_RE raw) = Some (ln, body) \<Longrightarrow> py_int ln = Some (int (nat_of_digits ln))"
  using LINE_NUM_group [of raw ln body] by (simp add: py_int_digits)

lemma CHR_CALL_int:
  assumes "rmatch CHR_CALL_RE x x Map.empty = Some (rest, g)"
  shows "\<exists>t. g 1 = Some t \<and> py_int t = Some (int (nat_of_digits t))"
  using CHR_CALL_group [OF assms] by (auto simp: py_int_digits)

section \<open>Lines that carry a number\<close>

text \<open>
  What the line pattern means for a line of the input, which holds no newline: the line
  carries a number when its first character behind the leading white space is a digit.
  Its number is then the longest run of digits there, its body the trimmed rest
  (\<open>parse_line_numbered\<close>). Every other line carries no number
  (\<open>parse_line_not_numbered\<close>).
\<close>

lemma rmatch_greedy_all:
  assumes "lo \<le> length (takeWhile p s)" "rmatch k inp (dropWhile p s) caps = Some r"
  shows "rmatch (Cls p lo None True # k) inp s caps = Some r"
proof -
  let ?N = "length (takeWhile p s)"
  have "[lo..<Suc ?N] = [lo..<?N] @ [?N]"
    using assms(1) by simp
  then have "reps p lo None True s = ?N # rev [lo..<?N]"
    by (simp add: reps_def Let_def del: upt_Suc)
  then show ?thesis
    using assms(2) by (simp add: drop_takeWhile_dropWhile)
qed

lemma drop_length_dropWhile: "drop (length s - length (dropWhile p s)) s = dropWhile p s"
proof -
  have "length s - length (dropWhile p s) = length (takeWhile p s)"
    by (metis add_diff_cancel_right' length_append takeWhile_dropWhile_id)
  then show ?thesis by (simp add: drop_takeWhile_dropWhile)
qed

lemma drop_suffix: "s = a @ b \<Longrightarrow> drop (length s - length b) s = b"
  by simp

lemma LINE_NUM_match:
  assumes "CHR 0x0A \<notin> set raw" "lstrip raw = d # t" "is_digit d"
  shows "groups12 (re_match LINE_NUM_RE raw)
           = Some (takeWhile is_digit (lstrip raw), lstrip (dropWhile is_digit (lstrip raw)))"
proof -
  let ?s0 = "lstrip raw"
  let ?ds = "takeWhile is_digit ?s0"
  let ?r1 = "dropWhile is_digit ?s0"
  let ?r2 = "dropWhile is_space ?r1"
  let ?w0 = "takeWhile is_space raw"
  let ?w1 = "takeWhile is_space ?r1"
  have raw: "raw = ?w0 @ ?s0" by (simp add: lstrip_def)
  have s0: "?s0 = ?ds @ ?r1" by simp
  have r1: "?r1 = ?w1 @ ?r2" by simp
  have ds: "1 \<le> length ?ds" using assms(2,3) by simp
  have sub: "set ?r2 \<subseteq> set raw"
    by (metis (no_types, lifting) lstrip_def set_dropWhileD subsetI)
  then have dots: "\<forall>c \<in> set ?r2. dot c"
    using assms(1) by (auto simp: dot_def)
  then have dw: "dropWhile dot ?r2 = []"
    by simp
  have tw: "takeWhile dot ?r2 = ?r2"
    using dots by (simp add: takeWhile_eq_all_conv)
  let ?c1 = "Map.empty(1 \<mapsto> take (length ?s0 - length ?r1) (drop (length raw - length ?s0) raw))"
  let ?c2 = "?c1(2 \<mapsto> take (length ?r2 - length ([] :: string)) (drop (length raw - length ?r2) raw))"
  have e3: "rmatch (Cls dot 0 None True # Close 2 (length ?r2) # [Eos]) raw ?r2 ?c1 = Some ([], ?c2)"
    by (rule rmatch_greedy_all) (simp_all only: dw rmatch.simps le0 simp_thms if_True)
  have e5: "rmatch (Cls is_space 0 None True # Grp 2 [Cls dot 0 None True] # [Eos]) raw ?r1 ?c1
              = Some ([], ?c2)"
    by (rule rmatch_greedy_all) (use e3 in \<open>simp_all only: rmatch.simps(5) append.simps le0\<close>)
  have e7: "rmatch (Cls is_digit 1 None True # Close 1 (length ?s0) # Cls is_space 0 None True #
              Grp 2 [Cls dot 0 None True] # [Eos]) raw ?s0 Map.empty = Some ([], ?c2)"
    by (rule rmatch_greedy_all) (use ds e5 in \<open>simp_all only: rmatch.simps(6)\<close>)
  have e9: "rmatch (Cls is_space 0 None True # Grp 1 [Cls is_digit 1 None True] #
              Cls is_space 0 None True # Grp 2 [Cls dot 0 None True] # [Eos]) raw raw Map.empty
              = Some ([], ?c2)"
    by (rule rmatch_greedy_all)
       (use e7 in \<open>simp_all only: rmatch.simps(5) append.simps le0 lstrip_def\<close>)
  have m: "rmatch LINE_NUM_RE raw raw Map.empty = Some ([], ?c2)"
    unfolding LINE_NUM_RE_def star_def plus_def using e9
    by (simp only: rmatch.simps(2) simp_thms if_True)
  have g1: "take (length ?s0 - length ?r1) (drop (length raw - length ?s0) raw) = ?ds"
  proof -
    have "drop (length raw - length ?s0) raw = ?s0"
      unfolding lstrip_def by (rule drop_length_dropWhile)
    moreover have "length ?s0 - length ?r1 = length ?ds"
      by (metis add_diff_cancel_right' length_append takeWhile_dropWhile_id)
    ultimately show ?thesis
      by (metis append_eq_conv_conj takeWhile_dropWhile_id)
  qed
  have g2: "take (length ?r2 - length ([] :: string)) (drop (length raw - length ?r2) raw) = ?r2"
  proof -
    have "raw = (?w0 @ ?ds @ ?w1) @ ?r2"
      using raw s0 r1 by (metis append_assoc)
    from drop_suffix [OF this] show ?thesis by simp
  qed
  have g1': "take (length (dropWhile is_space raw) - length (dropWhile is_digit (dropWhile is_space raw)))
               (drop (length raw - length (dropWhile is_space raw)) raw)
             = takeWhile is_digit (dropWhile is_space raw)"
    using g1 by (simp only: lstrip_def)
  have g2': "drop (length raw - length (dropWhile is_space (dropWhile is_digit (dropWhile is_space raw)))) raw
             = dropWhile is_space (dropWhile is_digit (dropWhile is_space raw))"
    using g2 by (simp add: lstrip_def)
  show ?thesis
    unfolding re_match_def m groups12_def by (simp add: lstrip_def g1' g2')
qed

lemma strip_lstrip: "strip (lstrip s) = strip s"
  by (simp add: strip_def lstrip_def)

lemma parse_line_numbered:
  assumes "CHR 0x0A \<notin> set raw" "lstrip raw = d # t" "is_digit d"
  shows "parse_line raw = (Some (nat_of_digits (takeWhile is_digit (lstrip raw))),
                           strip (dropWhile is_digit (lstrip raw)))"
  by (simp add: parse_line_def LINE_NUM_match [OF assms] strip_lstrip)

lemma space_not_digit: "is_space c \<Longrightarrow> \<not> is_digit c"
  by (auto simp: is_space_def is_digit_def)

lemma LINE_NUM_lead:
  assumes "re_match LINE_NUM_RE raw = Some g"
  shows "\<exists>d t. lstrip raw = d # t \<and> is_digit d"
proof -
  let ?k = "Grp 1 [plus is_digit] # [star is_space, Grp 2 [star dot], Eos]"
  from assms obtain rest where m: "rmatch (Bos # Cls is_space 0 None True # ?k) raw raw Map.empty = Some (rest, g)"
    by (auto simp: re_match_def LINE_NUM_RE_def star_def)
  have skip: "rmatch ?k raw (c # u) Map.empty = None" if "is_space c" for c u
    using that by (simp add: plus_def reps_def space_not_digit)
  have "rmatch (Cls is_space 0 None True # ?k) raw raw Map.empty =
          (if 0 \<le> length (takeWhile is_space raw)
           then rmatch ?k raw (dropWhile is_space raw) Map.empty else None)"
    by (rule rmatch_skip) (rule skip)
  with m have "rmatch ?k raw (lstrip raw) Map.empty = Some (rest, g)"
    by (simp add: lstrip_def)
  then have "rmatch (Cls is_digit 1 None True # Close 1 (length (lstrip raw)) #
               [star is_space, Grp 2 [star dot], Eos]) raw (lstrip raw) Map.empty = Some (rest, g)"
    by (simp add: plus_def)
  from rmatch_ClsD [OF this] obtain n where "1 \<le> n" "n \<le> length (takeWhile is_digit (lstrip raw))"
    by blast
  then obtain d u where "takeWhile is_digit (lstrip raw) = d # u"
    by (cases "takeWhile is_digit (lstrip raw)") auto
  then show ?thesis
    by (cases "lstrip raw") (auto split: if_splits)
qed

lemma parse_line_not_numbered:
  assumes "\<not> (\<exists>d t. lstrip raw = d # t \<and> is_digit d)"
  shows "parse_line raw = (None, rstrip raw)"
proof -
  have "re_match LINE_NUM_RE raw = None"
    using LINE_NUM_lead [of raw] assms by (cases "re_match LINE_NUM_RE raw") auto
  then show ?thesis by (simp add: parse_line_def groups12_def)
qed

section \<open>Assignments of the base address in a line\<close>

lemma segments_append_colon: "segments (x @ CHR '':'' # y) = segments x @ segments y"
proof (induction x)
  case Nil
  then show ?case by (simp add: segments_Cons)
next
  case (Cons c cs)
  obtain u us where u: "segments cs = u # us" by (cases "segments cs") simp_all
  with Cons show ?case by (simp add: segments_Cons)
qed

lemma segments_join: "ps \<noteq> [] \<Longrightarrow> segments (join_colon ps) = concat (map segments ps)"
proof (induction ps rule: join_colon.induct)
  case 1
  then show ?case by simp
next
  case (2 x)
  then show ?case by simp
next
  case (3 x y ys)
  then show ?case by (simp add: segments_append_colon)
qed

lemma segments_colon_free: "CHR '':'' \<notin> set a \<Longrightarrow> segments a = [a]"
proof (induction a)
  case Nil
  then show ?case by simp
next
  case (Cons c cs)
  then show ?case by (auto simp: segments_Cons)
qed

lemma drop_empty_tail_mid:
  assumes "a \<noteq> []"
  shows "\<exists>Y. drop_empty_tail (U @ [a] @ V) = U @ [a] @ Y"
proof (cases "V = []")
  case True
  with assms show ?thesis by (simp add: drop_empty_tail_def)
next
  case False
  then have "butlast (U @ [a] @ V) = U @ [a] @ butlast V"
    by (simp add: butlast_append)
  then show ?thesis
    by (cases "last (U @ [a] @ V) = []") (auto simp: drop_empty_tail_def)
qed

lemma split_join_mid:
  assumes "CHR '':'' \<notin> set a" "strip a = a" "a \<noteq> []"
  shows "\<exists>X Y. split_colon_statements (join_colon (P1 @ [a] @ P2)) = X @ [a] @ Y"
proof -
  have "segments (join_colon (P1 @ [a] @ P2)) = concat (map segments P1) @ [a] @ concat (map segments P2)"
    using assms(1) by (simp add: segments_join segments_colon_free)
  then have "split_colon_statements (join_colon (P1 @ [a] @ P2))
      = drop_empty_tail (map strip (concat (map segments P1)) @ [a] @ map strip (concat (map segments P2)))"
    using assms(2) by (simp add: split_colon_statements_segments)
  with drop_empty_tail_mid [OF assms(3)] show ?thesis by metis
qed

lemma pipeline_mid:
  assumes "a \<in> set stmts" "f a = [a]"
  shows "\<exists>P1 P2. concat (map f stmts) = P1 @ [a] @ P2"
proof -
  from assms(1) obtain xs ys where "stmts = xs @ a # ys"
    by (meson split_list)
  then have "concat (map f stmts) = concat (map f xs) @ [a] @ concat (map f ys)"
    using assms(2) by simp
  then show ?thesis by blast
qed

lemma join_colon_set: "x \<in> set xs \<Longrightarrow> set x \<subseteq> set (join_colon xs)"
  by (induction xs rule: join_colon.induct) auto

lemma strip_Nil_all_space:
  assumes "strip s = []"
  shows "\<forall>c \<in> set s. is_space c"
proof -
  from assms have "\<forall>c \<in> set (dropWhile is_space s). is_space c"
    by (simp add: strip_def rstrip_def lstrip_def dropWhile_eq_Nil_conv)
  then have "dropWhile is_space s = []"
    by (metis hd_dropWhile list.set_sel(1))
  then show ?thesis by (simp add: dropWhile_eq_Nil_conv)
qed

lemma strip_nonempty: "c \<in> set s \<Longrightarrow> \<not> is_space c \<Longrightarrow> strip s \<noteq> []"
  using strip_Nil_all_space by blast

lemma fix_base_assigns_mid:
  assumes "split_colon_statements new_body = X @ [a] @ Y" "assigned_base a = Some V" "V \<in> bv"
  shows "fix_base_assigns bv new_body
          = join_colon (map (replace_base_assign bv) X @ [V @ ''=0''] @ map (replace_base_assign bv) Y)"
proof -
  have "\<exists>s \<in> set (split_colon_statements new_body).
          case assigned_base s of None \<Rightarrow> False | Some name \<Rightarrow> name \<in> bv"
    using assms by (intro bexI [of _ a]) simp_all
  moreover have "replace_base_assign bv a = V @ ''=0''"
    using assms(2,3) by (simp add: replace_base_assign_def)
  ultimately show ?thesis
    using assms(1) by (simp add: fix_base_assigns_def Let_def)
qed

lemma collect_base_vars_mem:
  assumes "i < length lines" "parse_line (lines ! i) = (Some ln, body)"
    "stmt \<in> set (split_colon_statements body)" "assigned_base stmt = Some V"
  shows "V \<in> collect_base_vars (map parse_line lines)"
proof -
  have "V \<in> set (List.map_filter assigned_base (split_colon_statements body))"
    using assms(3,4) by (force simp: List.map_filter_def)
  then have "V \<in> set (line_base_vars (parse_line (lines ! i)))"
    by (simp add: line_base_vars_def assms(2))
  moreover have "line_base_vars (parse_line (lines ! i)) \<in> set (map line_base_vars (map parse_line lines))"
    using assms(1) by simp
  ultimately show ?thesis
    unfolding collect_base_vars_def set_concat by blast
qed

lemma out_line_assign:
  assumes "stmt \<in> set (split_colon_statements body)"
    and "group1 (re_match ASSIGN_BASE_RE stmt) = Some v"
    and "upper v \<in> bv"
  shows "\<exists>pre post. out_line a bv (Some ln, body)
           = show_nat ln @ '' '' @ join_colon (pre @ [upper v @ ''=0''] @ post)"
proof -
  let ?f = "\<lambda>s. rewrite_stmt bv (warn_out_of_range a) (screen_profile a) (map_get_to_inkey a)
                  (scale_stmt (if scale_for a > 0 then Some (scale_for a) else None) (scale_for_vars a) s)"
  let ?nb = "process_line_body body bv (warn_out_of_range a)
               (if scale_for a > 0 then Some (scale_for a) else None) (scale_for_vars a)
               (screen_profile a) (map_get_to_inkey a)"
  from group1_SomeD [OF assms(2)] obtain g where g: "re_match ASSIGN_BASE_RE stmt = Some g"
    by blast
  have tr: "strip stmt = stmt" using assms(1) by (rule split_parts_trimmed)
  have ne: "stmt \<noteq> []" using ASSIGN_has_eq [OF g] by auto
  have nc: "CHR '':'' \<notin> set stmt" using ASSIGN_no_special(3) [OF g] .
  have "?f stmt = [stmt]"
    using assms(2) tr by (rule ASSIGN_pipeline)
  from pipeline_mid [OF assms(1), of ?f, OF this] obtain P1 P2 where
    "concat (map ?f (split_colon_statements body)) = P1 @ [stmt] @ P2"
    by blast
  then have nb: "?nb = join_colon (P1 @ [stmt] @ P2)"
    by (simp add: process_line_body_def Let_def comp_def)
  from split_join_mid [OF nc tr ne, of P1 P2] obtain X Y where
    "split_colon_statements ?nb = X @ [stmt] @ Y"
    unfolding nb by blast
  moreover have "assigned_base stmt = Some (upper v)"
    using assms(2) by (simp add: assigned_base_def)
  ultimately have fx: "fix_base_assigns bv ?nb
     = join_colon (map (replace_base_assign bv) X @ [upper v @ ''=0''] @ map (replace_base_assign bv) Y)"
    using assms(3) by (rule fix_base_assigns_mid)
  have "CHR ''='' \<in> set (fix_base_assigns bv ?nb)"
    unfolding fx using join_colon_set [of "upper v @ ''=0''"] by force
  then have "strip (fix_base_assigns bv ?nb) \<noteq> []"
    by (rule strip_nonempty) (simp add: is_space_def)
  then have "out_line a bv (Some ln, body) = show_nat ln @ '' '' @ fix_base_assigns bv ?nb"
    by (simp add: out_line_def Let_def)
  with fx show ?thesis by metis
qed

lemma alias_match_alpha:
  assumes "alias_match x = Some r"
  shows "\<exists>c t. x = c # t \<and> is_alpha c"
proof -
  from assms obtain rest g where "rmatch ALIAS_RE x x Map.empty = Some (rest, g)"
    by (auto simp: alias_match_def re_match_def split: option.splits)
  then have "rmatch (one is_alpha # opt1 is_alnum # Close 1 (length x) #
               Opt [Grp 2 [one (ic CHR ''+''), Grp 3 [plus dot]]] # [Eos]) x x Map.empty = Some (rest, g)"
    by (simp add: ALIAS_RE_def)
  then show ?thesis
    by (cases x) (simp_all only: rmatch_one list.case option.distinct list.inject split: if_splits, blast)
qed

lemma not_alpha_5: "\<not> is_alpha CHR ''5''"
  by (simp add: is_alpha_def)

lemma offset_expr_alias:
  assumes "alias_match x = Some (name, g3)" "upper name \<in> bv"
  shows "offset_expr x bv = Some (case g3 of None \<Rightarrow> ''0'' | Some off \<Rightarrow> off)"
proof -
  from alias_match_alpha [OF assms(1)] obtain c t where x: "x = c # t" "is_alpha c"
    by blast
  with not_alpha_5 have "c \<noteq> CHR ''5''" by blast
  with x have "\<not> startswith x ''54272+''" "x \<noteq> ''54272''"
    by (simp_all add: startswith_def)
  then show ?thesis
    using assms by (simp add: offset_expr_def split: option.splits)
qed

lemma rewrite_poke_alias:
  assumes "alias_match (filter (\<lambda>c. \<not> is_space c) (strip addr)) = Some (name, g3)" "upper name \<in> bv"
  shows "rewrite_poke addr val bv warn =
           Some (''OUT REG,'' @ (case g3 of None \<Rightarrow> ''0'' | Some off \<Rightarrow> off),
                 ''OUT DAT,'' @ strip val @ range_rem warn (case g3 of None \<Rightarrow> ''0'' | Some off \<Rightarrow> off))"
  using offset_expr_alias [OF assms] by (simp add: rewrite_poke_def Let_def)

section \<open>The claims\<close>

subsection \<open>The POKE rewrite\<close>

text \<open>
  C1. Let the statement, trimmed as the body loop trims it, match the POKE pattern with
  the address \<open>addr\<close> and the value \<open>val\<close>, and let the address without white space be
  \<^verbatim>\<open>54272+\<close> followed by \<open>off\<close>. Then the two loops of \<open>process_line_body\<close> put exactly
  two statements in the place of this one, whatever the options are: the register-select
  output of \<open>off\<close>, then the data output of the trimmed value, to which the range
  warning of C5 is appended when it applies (never when the flag is off). With the
  default options the body \<^verbatim>\<open>POKE 54272+5,10\<close> becomes \<^verbatim>\<open>OUT REG,5:OUT DAT,10\<close>.
\<close>

theorem poke_literal_base_two_statements:
  "(\<forall>addr val off.
      groups12 (re_match POKE_STMT_RE (strip s)) = Some (addr, val) \<and>
      filter (\<lambda>c. \<not> is_space c) (strip addr) = ''54272+'' @ off \<longrightarrow>
      rewrite_stmt base_vars warn profile map_get (scale_stmt sf vars s)
        = [''OUT REG,'' @ off, ''OUT DAT,'' @ strip val @ range_rem warn off]
      \<and> range_rem False off = []) \<and>
   process_line_body ''POKE 54272+5,10'' {} False None {''T'', ''W'', ''DELAY'', ''D''} ''ansi'' False
     = ''OUT REG,5:OUT DAT,10''"
proof (intro conjI allI impI)
  fix addr val off
  assume h: "groups12 (re_match POKE_STMT_RE (strip s)) = Some (addr, val) \<and>
      filter (\<lambda>c. \<not> is_space c) (strip addr) = ''54272+'' @ off"
  then show "rewrite_stmt base_vars warn profile map_get (scale_stmt sf vars s)
        = [''OUT REG,'' @ off, ''OUT DAT,'' @ strip val @ range_rem warn off]"
    by (simp add: poke_pipeline [of s addr val] rewrite_poke_literal [of addr off])
next
  fix off :: string
  show "range_rem False off = []" by (simp add: range_rem_def)
next
  show "process_line_body ''POKE 54272+5,10'' {} False None {''T'', ''W'', ''DELAY'', ''D''} ''ansi'' False
     = ''OUT REG,5:OUT DAT,10''"
    by code_simp
qed

text \<open>
  The statement \<^verbatim>\<open>poke 54272 + V*7 , 3*X\<close> with every rewrite switched on: the address is
  read without its blanks, the value is kept with the blanks inside it.
\<close>

theorem poke_literal_base_two_statements_witness:
  "rewrite_stmt {} True ''ansi'' True (scale_stmt (Some 3) {''T''} ''poke 54272 + V*7 , 3 * X'')
     = [''OUT REG,V*7'', ''OUT DAT,3 * X'']"
proof -
  have m: "groups12 (re_match POKE_STMT_RE (strip ''poke 54272 + V*7 , 3 * X''))
             = Some (''54272 + V*7'', ''3 * X'')"
    by code_simp
  have f: "filter (\<lambda>c. \<not> is_space c) (strip ''54272 + V*7'') = ''54272+'' @ ''V*7''"
    by code_simp
  have e: "[''OUT REG,'' @ ''V*7'', ''OUT DAT,'' @ strip ''3 * X'' @ range_rem True ''V*7'']
             = [''OUT REG,V*7'', ''OUT DAT,3 * X'']"
    by code_simp
  from poke_literal_base_two_statements [of "''poke 54272 + V*7 , 3 * X''" "{}" True "''ansi''" True
      "Some 3" "{''T''}"] m f
  have "rewrite_stmt {} True ''ansi'' True (scale_stmt (Some 3) {''T''} ''poke 54272 + V*7 , 3 * X'')
          = [''OUT REG,'' @ ''V*7'', ''OUT DAT,'' @ strip ''3 * X'' @ range_rem True ''V*7'']"
    by blast
  with e show ?thesis by simp
qed

lemma poke_literal_base_main_example:
  "main default_args [''10 POKE 54272+5,10''] = [''5 B=0:REG=212:DAT=213'', ''10 OUT REG,5:OUT DAT,10'']"
  by code_simp

subsection \<open>The aliases of the base address\<close>

text \<open>
  C2. Let a numbered line of the program hold a statement that matches the assignment
  pattern, \<^verbatim>\<open>[LET] v = 54272\<close>. Then
  \<^item> the name \<open>v\<close>, in upper case, is in the alias set that the first pass collects;
  \<^item> every line of the output, before the assignment or behind it, is written with this
    one set;
  \<^item> with this set, a POKE statement whose address without white space matches the
    alias pattern with the name \<open>v\<close>, in any letter case, is rewritten to the two
    outputs, wherever it stands;
  \<^item> in the output line of the assignment, one of the statements between the colons is
    \<^verbatim>\<open>V=0\<close>, with \<open>V\<close> the name in upper case: the assignment statement reaches the second
    pass unchanged, since it matches none of the other patterns, and is replaced there.
\<close>

theorem base_alias_whole_program:
  assumes "i < length lines"
    and "parse_line (lines ! i) = (Some ln, body)"
    and "stmt \<in> set (split_colon_statements body)"
    and "group1 (re_match ASSIGN_BASE_RE stmt) = Some v"
  shows "upper v \<in> collect_base_vars (map parse_line lines) \<and>
     (\<forall>j < length lines.
        main a lines ! Suc j
          = out_line a (collect_base_vars (map parse_line lines)) (parse_line (lines ! j))) \<and>
     (\<forall>s addr val name g3 warn profile map_get sf vars.
        groups12 (re_match POKE_STMT_RE (strip s)) = Some (addr, val) \<and>
        alias_match (filter (\<lambda>c. \<not> is_space c) (strip addr)) = Some (name, g3) \<and>
        upper name = upper v \<longrightarrow>
        rewrite_stmt (collect_base_vars (map parse_line lines)) warn profile map_get
            (scale_stmt sf vars s)
          = [''OUT REG,'' @ (case g3 of None \<Rightarrow> ''0'' | Some off \<Rightarrow> off),
             ''OUT DAT,'' @ strip val @ range_rem warn (case g3 of None \<Rightarrow> ''0'' | Some off \<Rightarrow> off)]) \<and>
     (\<exists>pre post.
        main a lines ! Suc i = show_nat ln @ '' '' @ join_colon (pre @ [upper v @ ''=0''] @ post))"
proof (intro conjI allI impI; (elim conjE)?)
  let ?bv = "collect_base_vars (map parse_line lines)"
  have ab: "assigned_base stmt = Some (upper v)"
    using assms(4) by (simp add: assigned_base_def)
  show mem: "upper v \<in> ?bv"
    using assms(1,2,3) ab by (rule collect_base_vars_mem)
  show "\<exists>pre post.
        main a lines ! Suc i = show_nat ln @ '' '' @ join_colon (pre @ [upper v @ ''=0''] @ post)"
    using out_line_assign [OF assms(3,4) mem, of a ln] assms(1,2) by (simp add: main_nth)
  fix j assume "j < length lines"
  then show "main a lines ! Suc j = out_line a ?bv (parse_line (lines ! j))"
    by (rule main_nth)
next
  let ?bv = "collect_base_vars (map parse_line lines)"
  fix s addr val name g3 warn profile map_get sf vars
  assume m: "groups12 (re_match POKE_STMT_RE (strip s)) = Some (addr, val)"
    and al: "alias_match (filter (\<lambda>c. \<not> is_space c) (strip addr)) = Some (name, g3)"
    and u: "upper name = upper v"
  have ab: "assigned_base stmt = Some (upper v)"
    using assms(4) by (simp add: assigned_base_def)
  have "upper name \<in> ?bv"
    unfolding u using assms(1,2,3) ab by (rule collect_base_vars_mem)
  from rewrite_poke_alias [OF al this]
  show "rewrite_stmt ?bv warn profile map_get (scale_stmt sf vars s)
          = [''OUT REG,'' @ (case g3 of None \<Rightarrow> ''0'' | Some off \<Rightarrow> off),
             ''OUT DAT,'' @ strip val @ range_rem warn (case g3 of None \<Rightarrow> ''0'' | Some off \<Rightarrow> off)]"
    by (simp add: poke_pipeline [OF m])
qed

text \<open>
  The alias is used on line 10 and assigned on line 20, in lower case and with
  \<^verbatim>\<open>LET\<close>.
\<close>

theorem base_alias_whole_program_witness:
  "''B'' \<in> collect_base_vars (map parse_line [''10 POKE B+4,9'', ''20 LET b = 54272 : PRINT 1'']) \<and>
   main default_args [''10 POKE B+4,9'', ''20 LET b = 54272 : PRINT 1'']
     = [''5 B=0:REG=212:DAT=213'', ''10 OUT REG,4:OUT DAT,9'', ''20 B=0:PRINT 1'']"
proof -
  let ?L = "[''10 POKE B+4,9'', ''20 LET b = 54272 : PRINT 1'']"
  have i: "1 < length ?L" by simp
  have p: "parse_line (?L ! 1) = (Some 20, ''LET b = 54272 : PRINT 1'')"
    by code_simp
  have s: "''LET b = 54272'' \<in> set (split_colon_statements ''LET b = 54272 : PRINT 1'')"
    by code_simp
  have g: "group1 (re_match ASSIGN_BASE_RE ''LET b = 54272'') = Some ''b''"
    by code_simp
  have u: "upper ''b'' = ''B''"
    by code_simp
  have m: "main default_args ?L
     = [''5 B=0:REG=212:DAT=213'', ''10 OUT REG,4:OUT DAT,9'', ''20 B=0:PRINT 1'']"
    by code_simp
  have "upper ''b'' \<in> collect_base_vars (map parse_line ?L)"
    using base_alias_whole_program [OF i p s g, of default_args] by (rule conjunct1)
  then have "''B'' \<in> collect_base_vars (map parse_line ?L)"
    unfolding u .
  then show ?thesis using m by (rule conjI)
qed

lemma base_alias_example:
  "main default_args [''10 B=54272'', ''20 POKE B+4,9'']
     = [''5 B=0:REG=212:DAT=213'', ''10 B=0'', ''20 OUT REG,4:OUT DAT,9'']"
  by code_simp

subsection \<open>The header line\<close>

text \<open>
  C3. The header is the first line that \<open>main\<close> gives. When \<open>l\<close> is the first line of
  the input that carries a number, \<open>n\<close>, the header's number is \<open>n - 5\<close>, and 0 when
  that is negative; when no line carries a number, the header's number is 5. (Which
  lines carry a number, and which number, is what \<open>parse_line_numbered\<close> and
  \<open>parse_line_not_numbered\<close> say.)
\<close>

theorem header_line_first:
  "main a lines \<noteq> [] \<and>
   (\<forall>pre l post n. lines = pre @ l # post \<and> (\<forall>x \<in> set pre. fst (parse_line x) = None)
        \<and> fst (parse_line l) = Some n
      \<longrightarrow> hd (main a lines) = show_int (max 0 (int n - 5)) @ '' '' @ header_text a) \<and>
   ((\<forall>x \<in> set lines. fst (parse_line x) = None)
      \<longrightarrow> hd (main a lines) = ''5 '' @ header_text a)"
proof (intro conjI allI impI)
  show "main a lines \<noteq> []" by (simp add: main_def Let_def)
next
  fix pre l post n
  assume h: "lines = pre @ l # post \<and> (\<forall>x \<in> set pre. fst (parse_line x) = None)
        \<and> fst (parse_line l) = Some n"
  then have "first_line_num (map parse_line lines) = Some n"
    using first_line_num_found [of pre l n post] by simp
  then show "hd (main a lines) = show_int (max 0 (int n - 5)) @ '' '' @ header_text a"
    by (simp add: main_hd header_line_def)
next
  assume "\<forall>x \<in> set lines. fst (parse_line x) = None"
  then have "first_line_num (map parse_line lines) = None"
    by (rule first_line_num_none)
  then show "hd (main a lines) = ''5 '' @ header_text a"
    by (simp add: main_hd header_line_def)
qed

text \<open>
  A program whose first numbered line is 100, behind a line without a number: the header
  is numbered 95.
\<close>

theorem header_line_first_witness:
  "hd (main default_args [''REM DEMO'', ''100 PRINT 1'', ''20 END'']) = ''95 B=0:REG=212:DAT=213''"
proof -
  have a: "\<forall>x \<in> set [''REM DEMO'']. fst (parse_line x) = None"
    by code_simp
  have b: "fst (parse_line ''100 PRINT 1'') = Some 100"
    by code_simp
  have c: "show_int (max 0 (int 100 - 5)) @ '' '' @ header_text default_args = ''95 B=0:REG=212:DAT=213''"
    by code_simp
  have "hd (main default_args ([''REM DEMO''] @ ''100 PRINT 1'' # [''20 END'']))
          = show_int (max 0 (int 100 - 5)) @ '' '' @ header_text default_args"
    using header_line_first [of default_args "[''REM DEMO''] @ ''100 PRINT 1'' # [''20 END'']"] a b
    by blast
  with c show ?thesis by simp
qed

lemma header_line_fallback_example:
  "main default_args [''REM DEMO'', ''PRINT 1''] = [''5 B=0:REG=212:DAT=213'', ''REM DEMO'', ''PRINT 1'']"
  by code_simp

subsection \<open>Splitting and joining under a rewrite that changes nothing\<close>

text \<open>
  C4, as amended. The screen profile is off, no flag is set and no statement is a POKE
  of the sound chip. When no segment of the body between the colons has white space at
  its ends, and the last segment is not empty (or the body is empty), the body comes
  back as it is.
\<close>

theorem process_line_body_noop_roundtrip:
  assumes "\<forall>seg \<in> set (segments body). strip seg = seg"
    and "body = [] \<or> last (segments body) \<noteq> []"
    and "\<forall>s \<in> set (split_colon_statements body). poke_stmt base_vars False s = None"
  shows "process_line_body body base_vars False None vars ''none'' False = body"
  using assms by (simp add: process_line_body_noop split_of_trimmed_segments)

theorem process_line_body_noop_roundtrip_witness:
  "process_line_body ''PRINT 1:POKE 53280,0::NEXT'' {''B''} False None {''T''} ''none'' False
     = ''PRINT 1:POKE 53280,0::NEXT''"
proof -
  have a: "\<forall>seg \<in> set (segments ''PRINT 1:POKE 53280,0::NEXT''). strip seg = seg"
    by code_simp
  have b: "''PRINT 1:POKE 53280,0::NEXT'' = [] \<or> last (segments ''PRINT 1:POKE 53280,0::NEXT'') \<noteq> []"
    by code_simp
  have c: "\<forall>s \<in> set (split_colon_statements ''PRINT 1:POKE 53280,0::NEXT'').
             poke_stmt {''B''} False s = None"
    by code_simp
  show ?thesis by (rule process_line_body_noop_roundtrip [OF a b c])
qed

text \<open>
  C4 as stated fails: the white space around a colon is not reproduced.
\<close>

theorem process_line_body_noop_trims:
  "poke_stmt {} False ''A'' = None \<and> poke_stmt {} False ''B'' = None \<and>
   process_line_body ''A : B'' {} False None {} ''none'' False = ''A:B'' \<and>
   process_line_body ''A : B'' {} False None {} ''none'' False \<noteq> ''A : B''"
  by code_simp

subsection \<open>The range warning\<close>

text \<open>
  C5. When \<open>rewrite_poke\<close> recognizes a POKE, with the offset expression \<open>off\<close>:
  \<^item> with the flag on, and \<open>off\<close> an integer literal \<open>n\<close> below 0 or above 24, the data
    output is followed by the annotation, which holds \<open>n\<close>;
  \<^item> when \<open>off\<close> is no integer literal, nothing is appended, flag or no flag;
  \<^item> with the flag off, nothing is appended.
  An integer literal within 0 to 24 gets no annotation either.
\<close>

theorem range_warning_annotation:
  assumes "rewrite_poke arg_addr arg_val base_vars warn = Some (out_reg, out_dat)"
  shows "\<exists>off. offset_expr (filter (\<lambda>c. \<not> is_space c) (strip arg_addr)) base_vars = Some off \<and>
           out_reg = ''OUT REG,'' @ off \<and>
           (\<forall>n. warn \<and> py_int off = Some n \<and> (n < 0 \<or> 24 < n) \<longrightarrow>
              out_dat = ''OUT DAT,'' @ strip arg_val @ '' : REM WARN: SID reg '' @ show_int n @ '' out of 0-24'') \<and>
           (\<forall>n. py_int off = Some n \<and> 0 \<le> n \<and> n \<le> 24 \<longrightarrow> out_dat = ''OUT DAT,'' @ strip arg_val) \<and>
           (py_int off = None \<longrightarrow> out_dat = ''OUT DAT,'' @ strip arg_val) \<and>
           (\<not> warn \<longrightarrow> out_dat = ''OUT DAT,'' @ strip arg_val)"
proof -
  from rewrite_poke_SomeD [OF assms] obtain off where
    o: "offset_expr (filter (\<lambda>c. \<not> is_space c) (strip arg_addr)) base_vars = Some off"
    and r: "out_reg = ''OUT REG,'' @ off"
    and d: "out_dat = ''OUT DAT,'' @ strip arg_val @ range_rem warn off"
    by blast
  have "(\<forall>n. warn \<and> py_int off = Some n \<and> (n < 0 \<or> 24 < n) \<longrightarrow>
           range_rem warn off = '' : REM WARN: SID reg '' @ show_int n @ '' out of 0-24'') \<and>
        (\<forall>n. py_int off = Some n \<and> 0 \<le> n \<and> n \<le> 24 \<longrightarrow> range_rem warn off = []) \<and>
        (py_int off = None \<longrightarrow> range_rem warn off = []) \<and>
        (\<not> warn \<longrightarrow> range_rem warn off = [])"
    by (auto simp: range_rem_def)
  with o r d show ?thesis by simp
qed

theorem range_warning_annotation_witness:
  "rewrite_poke ''54272 + 30'' ''1'' {} True
     = Some (''OUT REG,30'', ''OUT DAT,1 : REM WARN: SID reg 30 out of 0-24'')"
proof -
  obtain out_reg out_dat where r: "rewrite_poke ''54272 + 30'' ''1'' {} True = Some (out_reg, out_dat)"
    by (simp add: rewrite_poke_def Let_def offset_expr_def startswith_def strip_def lstrip_def
        rstrip_def is_space_def)
  have o: "offset_expr (filter (\<lambda>c. \<not> is_space c) (strip ''54272 + 30'')) {} = Some ''30''"
    by code_simp
  have i: "py_int ''30'' = Some 30"
    by code_simp
  have e: "''OUT DAT,'' @ strip ''1'' @ '' : REM WARN: SID reg '' @ show_int 30 @ '' out of 0-24''
             = ''OUT DAT,1 : REM WARN: SID reg 30 out of 0-24''"
    by code_simp
  from range_warning_annotation [OF r] o i e
  have "out_reg = ''OUT REG,30'' \<and> out_dat = ''OUT DAT,1 : REM WARN: SID reg 30 out of 0-24''"
    by auto
  with r show ?thesis by simp
qed

lemma range_warning_examples:
  "process_line_body ''POKE 54272+30,1'' {} True None {} ''ansi'' False
     = ''OUT REG,30:OUT DAT,1 : REM WARN: SID reg 30 out of 0-24''"
  "process_line_body ''POKE 54272+30,1'' {} False None {} ''ansi'' False = ''OUT REG,30:OUT DAT,1''"
  "process_line_body ''POKE 54272+X,1'' {} True None {} ''ansi'' False = ''OUT REG,X:OUT DAT,1''"
  "process_line_body ''POKE 54272+24,1'' {} True None {} ''ansi'' False = ''OUT REG,24:OUT DAT,1''"
  "process_line_body ''POKE 54272+-1,1'' {} True None {} ''ansi'' False
     = ''OUT REG,-1:OUT DAT,1 : REM WARN: SID reg -1 out of 0-24''"
  by code_simp+

subsection \<open>The scaling of loop bounds\<close>



lemma scale_for_examples:
  "process_line_body ''FOR T=1 TO 50'' {} False (Some 3) {''T''} ''ansi'' False = ''FOR T=1 TO 150''"
  "process_line_body ''FOR T=1 TO 50'' {} False (Some 3) {''W''} ''ansi'' False = ''FOR T=1 TO 50''"
  "process_line_body ''FOR T=1 TO 50 STEP 2'' {} False (Some 3) {''T''} ''ansi'' False = ''FOR T=1 TO 50 STEP 2''"
  "process_line_body ''FOR T=0 TO 50'' {} False (Some 3) {''T''} ''ansi'' False = ''FOR T=0 TO 50''"
  "process_line_body ''for t = 1 to 007'' {} False (Some 3) {''T''} ''ansi'' False = ''FOR t=1 TO 21''"
  "process_line_body ''for t = 1 to 007'' {} False (Some 1) {''T''} ''ansi'' False = ''for t = 1 to 007''"
  by code_simp+

lemma scale_for_main_examples:
  "main (default_args\<lparr>scale_for := 3, scale_for_vars := {''T''}\<rparr>) [''10 FOR T=1 TO 50:NEXT T'']
     = [''5 B=0:REG=212:DAT=213'', ''10 FOR T=1 TO 150:NEXT T'']"
  "main (default_args\<lparr>scale_for := 0, scale_for_vars := {''T''}\<rparr>) [''10 FOR T=1 TO 50:NEXT T'']
     = [''5 B=0:REG=212:DAT=213'', ''10 FOR T=1 TO 50:NEXT T'']"
  by code_simp+

subsection \<open>Lines without a number\<close>

text \<open>
  C7. The comments of \<^verbatim>\<open>main\<close> say that a line without a number is kept as it is and
  carried through untouched, but the first pass stores \<^verbatim>\<open>raw.rstrip()\<close>: a line without a
  number comes out at its place (\<open>main_unnumbered\<close>), without the white space at its
  end. The line \<^verbatim>\<open>REM x\<close> followed by two blanks carries no number, and the output holds
  \<^verbatim>\<open>REM x\<close> without the blanks: the line does not come out character for character.
\<close>

theorem unnumbered_line_loses_trailing_space:
  "fst (parse_line ''REM x  '') = None \<and>
   main default_args [''REM x  ''] = [''5 B=0:REG=212:DAT=213'', ''REM x''] \<and>
   ''REM x  '' \<notin> set (main default_args [''REM x  ''])"
  by code_simp

subsection \<open>The statement splitter\<close>

text \<open>
  C8, as amended. The splitter gives the segments between the occurrences of the
  delimiter, each one trimmed, in their order; only the last segment is left out, when
  it is empty after trimming. An empty segment between two delimiters that follow each
  other is an entry of the result, the empty string.
\<close>

theorem split_colon_statements_segments_trimmed:
  "split_colon_statements s =
     (let segs = map strip (segments s) in if last segs = [] then butlast segs else segs)"
  by (simp add: split_colon_statements_segments drop_empty_tail_def)

text \<open>
  C8 as stated fails: two delimiters that follow each other inside the string give an
  empty entry.
\<close>

theorem split_colon_statements_empty_entry:
  "split_colon_statements ''A::B'' = [''A'', '''', ''B''] \<and>
   '''' \<in> set (split_colon_statements ''A::B'')"
  by code_simp

subsection \<open>A second run over the output of the POKE rewrite\<close>




subsection \<open>A bare plus behind the base\<close>

text \<open>
  C10. Let the statement, trimmed, match the POKE pattern with the address \<open>addr\<close> and the
  value \<open>val\<close>.
  \<^item> When the address without white space is \<^verbatim>\<open>54272+\<close> and nothing more, \<open>rewrite_poke\<close>
    takes it as a match with the empty offset: the statement is replaced by
    \<^verbatim>\<open>OUT REG,\<close> and the data output of the value.
  \<^item> When it is a name of the alias pattern followed by \<^verbatim>\<open>+\<close> and nothing more, the alias
    pattern does not match, whatever the alias set holds: \<open>rewrite_poke\<close> gives no
    match, and the statement goes on as any statement that is no POKE of the sound chip
    (only the screen profile is applied to it; it stays as it is when the profile is
    off or the statement holds no \<^verbatim>\<open>$\<close>).
\<close>

theorem bare_plus_literal_and_alias:
  "(\<forall>addr val.
      groups12 (re_match POKE_STMT_RE (strip s)) = Some (addr, val) \<and>
      filter (\<lambda>c. \<not> is_space c) (strip addr) = ''54272+'' \<longrightarrow>
      rewrite_poke addr val base_vars warn = Some (''OUT REG,'', ''OUT DAT,'' @ strip val) \<and>
      rewrite_stmt base_vars warn profile map_get (scale_stmt sf vars s)
        = [''OUT REG,'', ''OUT DAT,'' @ strip val]) \<and>
   (\<forall>addr val a.
      groups12 (re_match POKE_STMT_RE (strip s)) = Some (addr, val) \<and>
      alias_token a \<and> filter (\<lambda>c. \<not> is_space c) (strip addr) = a @ ''+'' \<longrightarrow>
      rewrite_poke addr val base_vars warn = None \<and>
      rewrite_stmt base_vars warn profile map_get (scale_stmt sf vars s)
        = [map_chr_calls_to_profile (strip s) profile] \<and>
      (profile \<noteq> ''ansi'' \<or> CHR ''$'' \<notin> set (strip s) \<longrightarrow>
         rewrite_stmt base_vars warn profile map_get (scale_stmt sf vars s) = [strip s]))"
proof (intro conjI allI impI; (elim conjE)?)
  fix addr val
  assume m: "groups12 (re_match POKE_STMT_RE (strip s)) = Some (addr, val)"
    and f: "filter (\<lambda>c. \<not> is_space c) (strip addr) = ''54272+''"
  show r: "rewrite_poke addr val base_vars warn = Some (''OUT REG,'', ''OUT DAT,'' @ strip val)"
    using f by (rule rewrite_poke_bare_plus)
  show "rewrite_stmt base_vars warn profile map_get (scale_stmt sf vars s)
        = [''OUT REG,'', ''OUT DAT,'' @ strip val]"
    by (simp add: poke_pipeline [OF m] r)
next
  fix addr val a
  assume m: "groups12 (re_match POKE_STMT_RE (strip s)) = Some (addr, val)"
    and a: "alias_token a" and f: "filter (\<lambda>c. \<not> is_space c) (strip addr) = a @ ''+''"
  show r: "rewrite_poke addr val base_vars warn = None"
    using a f by (rule rewrite_poke_alias_plus)
  show p: "rewrite_stmt base_vars warn profile map_get (scale_stmt sf vars s)
        = [map_chr_calls_to_profile (strip s) profile]"
    by (simp add: poke_pipeline [OF m] r)
  assume "profile \<noteq> ''ansi'' \<or> CHR ''$'' \<notin> set (strip s)"
  then show "rewrite_stmt base_vars warn profile map_get (scale_stmt sf vars s) = [strip s]"
    by (simp add: p map_chr_id)
qed

theorem bare_plus_literal_and_alias_witness:
  "rewrite_stmt {''B''} True ''ansi'' True (scale_stmt (Some 3) {''T''} ''POKE 54272 + ,1'')
     = [''OUT REG,'', ''OUT DAT,1''] \<and>
   rewrite_stmt {''B''} True ''ansi'' True (scale_stmt (Some 3) {''T''} ''POKE B+,1'') = [''POKE B+,1'']"
proof -
  have m1: "groups12 (re_match POKE_STMT_RE (strip ''POKE 54272 + ,1'')) = Some (''54272 +'', ''1'')"
    by code_simp
  have f1: "filter (\<lambda>c. \<not> is_space c) (strip ''54272 +'') = ''54272+''"
    by code_simp
  have m2: "groups12 (re_match POKE_STMT_RE (strip ''POKE B+,1'')) = Some (''B+'', ''1'')"
    by code_simp
  have f2: "alias_token ''B'' \<and> filter (\<lambda>c. \<not> is_space c) (strip ''B+'') = ''B'' @ ''+''"
    by code_simp
  have d: "CHR ''$'' \<notin> set (strip ''POKE B+,1'')" "strip ''POKE B+,1'' = ''POKE B+,1''" "strip ''1'' = ''1''"
    by code_simp+
  from bare_plus_literal_and_alias [of "''POKE 54272 + ,1''" "{''B''}" True "''ansi''" True "Some 3" "{''T''}"] m1 f1
  have a: "rewrite_stmt {''B''} True ''ansi'' True (scale_stmt (Some 3) {''T''} ''POKE 54272 + ,1'')
     = [''OUT REG,'', ''OUT DAT,'' @ strip ''1'']"
    by blast
  from bare_plus_literal_and_alias [of "''POKE B+,1''" "{''B''}" True "''ansi''" True "Some 3" "{''T''}"] m2 f2 d(1)
  have b: "rewrite_stmt {''B''} True ''ansi'' True (scale_stmt (Some 3) {''T''} ''POKE B+,1'')
     = [strip ''POKE B+,1'']"
    by blast
  from a b d show ?thesis by simp
qed

lemma bare_plus_examples:
  "process_line_body ''POKE 54272+,1'' {''B''} True None {} ''ansi'' False = ''OUT REG,:OUT DAT,1''"
  "process_line_body ''POKE B+,1'' {''B''} True None {} ''ansi'' False = ''POKE B+,1''"
  "process_line_body ''POKE B+4,1'' {''B''} True None {} ''ansi'' False = ''OUT REG,4:OUT DAT,1''"
  by code_simp+

end
